theory Spec2Isabelle
  imports Complex_Main
begin

section \<open>Data model\<close>

text \<open>
  A React Flow node of \<^verbatim>\<open>v14.tsx\<close>, reduced to the fields the layout engine, the edge
  deriver and the mutation handlers read or write.  JavaScript numbers are modelled as
  rationals: every coordinate the layout of \<^verbatim>\<open>v14.tsx\<close> produces from the initial root
  position \<open>(300, 50)\<close> is an integer or a half-integer of small magnitude, which doubles
  represent exactly.  The callback fields of \<^verbatim>\<open>node.data\<close> are left out; the copies of
  the relink state that \<^verbatim>\<open>node.data\<close> carries are kept, because the click handler of a
  node reads them and not the state of the application.

  Node objects are shared by reference between the \<^verbatim>\<open>nodes\<close> array and the children map,
  and the layout mutates them in place.  The array is the store and an object is
  addressed by its index in the array.
\<close>

record node =
  nid :: string
  parentId :: "string option"
  label :: string
  ntype :: string
  pos_x :: rat
  pos_y :: rat
  background :: "string option"
  display :: "string option"
  visible :: "bool option"
  draggable :: bool
  data_isRelinkMode :: bool
  data_selectedNodeForRelink :: "string option"
  measured :: "rat option"

record edge =
  eid :: string
  source :: string
  target :: string
  animated :: bool
  stroke :: string
  strokeWidth :: nat
  edisplay :: string

definition NODE_WIDTH :: rat where
  "NODE_WIDTH = 180"

definition VERTICAL_GAP :: rat where
  "VERTICAL_GAP = 120"

definition HORIZONTAL_GAP :: rat where
  "HORIZONTAL_GAP = 30"

definition NODE_TYPES :: "string list" where
  "NODE_TYPES = [''System'', ''Subsystem'', ''Component'', ''Part'']"

definition backgrounds :: "string list" where
  "backgrounds = [''#172A2E'', ''#22383C'', ''#051114'']"

text \<open>
  The truthiness test \<^verbatim>\<open>if (parentId)\<close> on a value that is \<^verbatim>\<open>null\<close> or a string: \<^verbatim>\<open>null\<close>
  and the empty string are falsy.
\<close>

fun truthy :: "string option \<Rightarrow> bool" where
  "truthy None = False"
| "truthy (Some s) = (s \<noteq> [])"

section \<open>Layout engine\<close>

text \<open>
  The first loop of \<^verbatim>\<open>layoutTree\<close>: group the nodes (by index) under their truthy
  \<^verbatim>\<open>parentId\<close>, in array order.  \<open>childrenMap\<close> is the table of the own properties of the
  object that the loop fills, and \<^verbatim>\<open>childrenMap[id] || []\<close> is the application of that
  table.

  The object of the source is a plain \<^verbatim>\<open>{}\<close>, which also inherits the properties of
  \<^verbatim>\<open>Object.prototype\<close>, listed in \<open>objectPrototypeKeys\<close>.  For a key among them the source
  reads the inherited value, not the table: in the first loop \<^verbatim>\<open>childrenMap[parentId]\<close> is
  then truthy and has no \<^verbatim>\<open>push\<close>, so the loop throws a \<^verbatim>\<open>TypeError\<close>, and in
  \<^verbatim>\<open>childrenMap[node.id] || []\<close> the inherited value stands where an array is expected.
  The table agrees with the object on every other key.  Identifiers allocated by the counter are decimal
  numerals and are never such keys (\<open>toString_plain\<close>, \<open>session_ids_plain\<close> below); the
  statements about a parent id that is an arbitrary string exclude them explicitly.
\<close>

definition childrenMap :: "node list \<Rightarrow> string \<Rightarrow> nat list" where
  "childrenMap nds =
     fold (\<lambda>(i, n) m.
            (case parentId n of
               None \<Rightarrow> m
             | Some p \<Rightarrow> if p \<noteq> [] then m(p := m p @ [i]) else m))
          (enumerate 0 nds) (\<lambda>_. [])"

definition objectPrototypeKeys :: "string list" where
  "objectPrototypeKeys =
     [''constructor'', ''__defineGetter__'', ''__defineSetter__'', ''hasOwnProperty'',
      ''__lookupGetter__'', ''__lookupSetter__'', ''isPrototypeOf'', ''propertyIsEnumerable'',
      ''toString'', ''valueOf'', ''__proto__'', ''toLocaleString'']"

text \<open>
  A \<^verbatim>\<open>forEach\<close> that adds up what a callback returns; the callback may fail to return.
\<close>

fun sumWidths :: "(nat \<Rightarrow> rat option) \<Rightarrow> nat list \<Rightarrow> rat \<Rightarrow> rat option" where
  "sumWidths g [] acc = Some acc"
| "sumWidths g (c # cs) acc =
     (case g c of None \<Rightarrow> None | Some w \<Rightarrow> sumWidths g cs (acc + w))"

text \<open>
  \<^verbatim>\<open>getSubtreeWidth\<close> of \<^verbatim>\<open>v14.tsx\<close>.  The recursion follows the children map and has no
  visited set, so on a cyclic map it does not return; the first argument bounds the depth
  of the call stack and \<open>None\<close> stands for not returning.
\<close>

primrec getSubtreeWidth ::
  "nat \<Rightarrow> (string \<Rightarrow> nat list) \<Rightarrow> node list \<Rightarrow> nat \<Rightarrow> rat option" where
  "getSubtreeWidth 0 cm st i = None"
| "getSubtreeWidth (Suc fuel) cm st i =
     (let children = cm (nid (st ! i)) in
      if children = [] then Some NODE_WIDTH
      else (case sumWidths (getSubtreeWidth fuel cm st) children 0 of
              None \<Rightarrow> None
            | Some tot \<Rightarrow>
                Some (max NODE_WIDTH
                        (tot + (of_nat (length children) - 1) * HORIZONTAL_GAP))))"

text \<open>
  The variant of the width-aware editor (\<^verbatim>\<open>part_000\<close>, where \<^verbatim>\<open>NODE_WIDTH\<close> is 120):
  \<^verbatim>\<open>node.measured?.width || NODE_WIDTH\<close> falls back to the default when there is no
  measurement and also when the measured width is the falsy number 0.
\<close>

definition NODE_WIDTH_measured :: rat where
  "NODE_WIDTH_measured = 120"

definition currentWidth :: "node \<Rightarrow> rat" where
  "currentWidth n =
     (case measured n of
        None \<Rightarrow> NODE_WIDTH_measured
      | Some w \<Rightarrow> if w = 0 then NODE_WIDTH_measured else w)"

primrec getSubtreeWidth_measured ::
  "nat \<Rightarrow> (string \<Rightarrow> nat list) \<Rightarrow> node list \<Rightarrow> nat \<Rightarrow> rat option" where
  "getSubtreeWidth_measured 0 cm st i = None"
| "getSubtreeWidth_measured (Suc fuel) cm st i =
     (let children = cm (nid (st ! i)) in
      if children = [] then Some (currentWidth (st ! i))
      else (case sumWidths (getSubtreeWidth_measured fuel cm st) children 0 of
              None \<Rightarrow> None
            | Some tot \<Rightarrow>
                Some (max (currentWidth (st ! i))
                        (tot + (of_nat (length children) - 1) * HORIZONTAL_GAP))))"

text \<open>
  The four assignments at the head of \<^verbatim>\<open>layoutNode\<close>.
\<close>

definition place :: "rat \<Rightarrow> rat \<Rightarrow> nat \<Rightarrow> bool \<Rightarrow> node \<Rightarrow> node" where
  "place xCenter y depth vis n =
     n\<lparr> pos_x := xCenter - NODE_WIDTH / 2,
        pos_y := y,
        background := Some (backgrounds ! min depth (length backgrounds - 1)),
        display := Some (if vis then ''block'' else ''none''),
        visible := Some vis \<rparr>"

text \<open>
  The \<^verbatim>\<open>children.forEach\<close> of \<^verbatim>\<open>layoutNode\<close>: each child is laid out at the centre of
  its slot, then \<^verbatim>\<open>currentX\<close> advances by the slot and the gap.
\<close>

fun layoutChildren ::
  "(node list \<Rightarrow> nat \<Rightarrow> rat \<Rightarrow> node list option) \<Rightarrow> (nat \<times> rat) list \<Rightarrow> rat \<Rightarrow>
   node list \<Rightarrow> node list option" where
  "layoutChildren visit [] currentX st = Some st"
| "layoutChildren visit ((child, childWidth) # rest) currentX st =
     (case visit st child (currentX + childWidth / 2) of
        None \<Rightarrow> None
      | Some st' \<Rightarrow> layoutChildren visit rest (currentX + childWidth + HORIZONTAL_GAP) st')"

primrec layoutNode ::
  "nat \<Rightarrow> (string \<Rightarrow> nat list) \<Rightarrow> node list \<Rightarrow> nat \<Rightarrow> rat \<Rightarrow> rat \<Rightarrow> nat \<Rightarrow> bool \<Rightarrow>
   node list option" where
  "layoutNode 0 cm st i xCenter y depth vis = None"
| "layoutNode (Suc fuel) cm st i xCenter y depth vis =
     (let st1 = st[i := place xCenter y depth vis (st ! i)];
          children = cm (nid (st1 ! i)) in
      if children = [] then Some st1
      else (case those (map (getSubtreeWidth fuel cm st1) children) of
              None \<Rightarrow> None
            | Some childrenWidths \<Rightarrow>
                (let totalChildrenWidth =
                       sum_list childrenWidths
                       + (of_nat (length children) - 1) * HORIZONTAL_GAP;
                     childY = y + VERTICAL_GAP in
                 layoutChildren
                   (\<lambda>s child childCenter.
                      layoutNode fuel cm s child childCenter childY (depth + 1) vis)
                   (zip children childrenWidths)
                   (xCenter - totalChildrenWidth / 2) st1)))"

text \<open>
  The last loop of \<^verbatim>\<open>layoutTree\<close>: every node with a falsy \<^verbatim>\<open>parentId\<close> is laid out as
  a root, at its own position.
\<close>

fun layoutRoots ::
  "nat \<Rightarrow> (string \<Rightarrow> nat list) \<Rightarrow> nat list \<Rightarrow> node list \<Rightarrow> node list option" where
  "layoutRoots fuel cm [] st = Some st"
| "layoutRoots fuel cm (i # is) st =
     (if \<not> truthy (parentId (st ! i)) then
        (case layoutNode fuel cm st i (pos_x (st ! i) + NODE_WIDTH / 2) (pos_y (st ! i)) 0 True of
           None \<Rightarrow> None
         | Some st' \<Rightarrow> layoutRoots fuel cm is st')
      else layoutRoots fuel cm is st)"

text \<open>
  \<^verbatim>\<open>layoutTree\<close>.  A call chain of the layout that returns visits pairwise different
  node objects, so a stack of \<open>length nodes + 1\<close> frames is enough whenever it returns.
\<close>

definition layoutTree :: "node list \<Rightarrow> node list option" where
  "layoutTree nds =
     layoutRoots (Suc (length nds)) (childrenMap nds) [0..<length nds]
       (map (\<lambda>n. n\<lparr>draggable := False\<rparr>) nds)"

text \<open>The first node of the array that carries a given id.\<close>

definition nodeById :: "node list \<Rightarrow> string \<Rightarrow> node option" where
  "nodeById nds i = find (\<lambda>n. nid n = i) nds"

section \<open>Edge deriver\<close>

text \<open>
  \<^verbatim>\<open>findDescendants\<close> inside \<^verbatim>\<open>computeEdges\<close>: a recursive scan of the whole array for
  the nodes whose \<^verbatim>\<open>parentId\<close> is strictly equal to the given id, adding each to the set
  \<^verbatim>\<open>isDescendantOf10\<close> of the enclosing scope before recursing into it.  The set is
  threaded through as an accumulator.
\<close>

fun findLoop ::
  "(string \<Rightarrow> string set \<Rightarrow> string set option) \<Rightarrow> string \<Rightarrow> node list \<Rightarrow> string set \<Rightarrow>
   string set option" where
  "findLoop recur nodeId [] acc = Some acc"
| "findLoop recur nodeId (n # ns) acc =
     (if parentId n = Some nodeId then
        (case recur (nid n) (insert (nid n) acc) of
           None \<Rightarrow> None
         | Some acc' \<Rightarrow> findLoop recur nodeId ns acc')
      else findLoop recur nodeId ns acc)"

primrec findDescendants ::
  "nat \<Rightarrow> node list \<Rightarrow> string \<Rightarrow> string set \<Rightarrow> string set option" where
  "findDescendants 0 nds nodeId acc = None"
| "findDescendants (Suc fuel) nds nodeId acc =
     findLoop (findDescendants fuel nds) nodeId nds acc"

definition edgeOf :: "string set \<Rightarrow> node \<Rightarrow> edge list" where
  "edgeOf isDescendantOf10 n =
     (case parentId n of
        None \<Rightarrow> []
      | Some p \<Rightarrow>
          if p = [] then []
          else (let isAnimated = (nid n = ''10'' \<or> nid n \<in> isDescendantOf10) in
                [\<lparr> eid = ''e-'' @ p @ ''-'' @ nid n,
                   source = p,
                   target = nid n,
                   animated = isAnimated,
                   stroke = (if isAnimated then ''#CBEC80'' else ''#B0C1C6''),
                   strokeWidth = (if isAnimated then 3 else 1),
                   edisplay = (if visible n = Some True then ''block'' else ''none'') \<rparr>]))"

definition computeEdges :: "node list \<Rightarrow> edge list option" where
  "computeEdges nds =
     (case findDescendants (Suc (length nds)) nds ''10'' {} of
        None \<Rightarrow> None
      | Some isDescendantOf10 \<Rightarrow> Some (concat (map (edgeOf isDescendantOf10) nds)))"

section \<open>Editor state and mutation handlers\<close>

text \<open>
  The state of the \<^verbatim>\<open>App\<close> component: the two \<^verbatim>\<open>useState\<close> lists, the relink mode
  flag, the node selected for relinking and the counter \<^verbatim>\<open>nextId\<close>.  The ref
  \<^verbatim>\<open>nodeParentsRef\<close> is rebuilt from \<^verbatim>\<open>nodes\<close> by an effect after every change of
  \<^verbatim>\<open>nodes\<close>, so between two commands it is a function of \<^verbatim>\<open>nodes\<close>.

  A command is modelled as run to completion: its state updates, the effects they
  trigger and the renders that follow are over before the next command is issued.
\<close>

record editor =
  nodes :: "node list"
  edges :: "edge list"
  isRelinkMode :: bool
  selectedNodeForRelink :: "string option"
  nextId :: nat

text \<open>\<^verbatim>\<open>Number.prototype.toString\<close> on the counter, a natural number: its decimal digits.\<close>

definition digitChar :: "nat \<Rightarrow> char" where
  "digitChar d = char_of (48 + d)"

fun toString :: "nat \<Rightarrow> string" where
  "toString n = (if n < 10 then [digitChar n] else toString (n div 10) @ [digitChar (n mod 10)])"

declare toString.simps [simp del]

text \<open>
  The effect that copies the relink state into the \<^verbatim>\<open>data\<close> of every node.  React runs
  it after a render in which \<^verbatim>\<open>isRelinkMode\<close> or \<^verbatim>\<open>selectedNodeForRelink\<close> differs from
  the previous render (its other dependencies are callbacks that never change).
\<close>

definition relinkEffect :: "editor \<Rightarrow> editor \<Rightarrow> editor" where
  "relinkEffect old new =
     (if isRelinkMode new \<noteq> isRelinkMode old
         \<or> selectedNodeForRelink new \<noteq> selectedNodeForRelink old
      then (if length (nodes new) > 0
            then new\<lparr>nodes :=
                   map (\<lambda>n. n\<lparr>data_isRelinkMode := isRelinkMode new,
                               data_selectedNodeForRelink := selectedNodeForRelink new\<rparr>)
                       (nodes new)\<rparr>
            else new)
      else new)"

definition toggleRelinkMode :: "editor \<Rightarrow> editor" where
  "toggleRelinkMode st =
     relinkEffect st (st\<lparr>isRelinkMode := \<not> isRelinkMode st, selectedNodeForRelink := None\<rparr>)"

definition cancelRelink :: "editor \<Rightarrow> editor" where
  "cancelRelink st = relinkEffect st (st\<lparr>selectedNodeForRelink := None\<rparr>)"

definition handleSelectForRelink :: "string \<Rightarrow> editor \<Rightarrow> editor" where
  "handleSelectForRelink nodeId st =
     relinkEffect st (st\<lparr>selectedNodeForRelink := Some nodeId\<rparr>)"

definition handleRelink :: "string \<Rightarrow> string \<Rightarrow> editor \<Rightarrow> editor option" where
  "handleRelink nodeId newParentId st =
     (let updatedNodes =
            map (\<lambda>n. if nid n = nodeId then n\<lparr>parentId := Some newParentId\<rparr> else n)
                (nodes st) in
      case layoutTree updatedNodes of
        None \<Rightarrow> None
      | Some laidOutNodes \<Rightarrow>
          (case computeEdges laidOutNodes of
             None \<Rightarrow> None
           | Some es \<Rightarrow>
               Some (relinkEffect st
                       (st\<lparr>nodes := laidOutNodes, edges := es,
                           isRelinkMode := False, selectedNodeForRelink := None\<rparr>))))"

text \<open>
  \<^verbatim>\<open>handleAddChild\<close>.  The new node's \<^verbatim>\<open>data\<close> takes \<^verbatim>\<open>isRelinkMode\<close> and
  \<^verbatim>\<open>selectedNodeForRelink\<close> from the closure of the callback, not from the current state;
  the two are parameters here.
\<close>

definition newNode :: "bool \<Rightarrow> string option \<Rightarrow> nat \<Rightarrow> string \<Rightarrow> node" where
  "newNode closIsRelinkMode closSelected next parent =
     \<lparr> nid = toString next,
        parentId = Some parent,
        label = ''Component #'' @ toString next,
        ntype = NODE_TYPES ! 2,
        pos_x = 0,
        pos_y = 0,
        background = None,
        display = None,
        visible = None,
        draggable = False,
        data_isRelinkMode = closIsRelinkMode,
        data_selectedNodeForRelink = closSelected,
        measured = None \<rparr>"

definition handleAddChild :: "bool \<Rightarrow> string option \<Rightarrow> string \<Rightarrow> editor \<Rightarrow> editor option" where
  "handleAddChild closIsRelinkMode closSelected parent st =
     (let updatedNodes = nodes st @ [newNode closIsRelinkMode closSelected (nextId st) parent] in
      case layoutTree updatedNodes of
        None \<Rightarrow> None
      | Some laidOutNodes \<Rightarrow>
          (case computeEdges laidOutNodes of
             None \<Rightarrow> None
           | Some es \<Rightarrow>
               Some (st\<lparr>nodes := laidOutNodes, edges := es, nextId := nextId st + 1\<rparr>)))"

text \<open>
  \<^verbatim>\<open>getDescendants\<close> inside \<^verbatim>\<open>handleDelete\<close>: the same scan as \<^verbatim>\<open>findDescendants\<close>,
  written a second time in the source, returning the ids as an array.
\<close>

fun collectLoop ::
  "(string \<Rightarrow> string list option) \<Rightarrow> string \<Rightarrow> node list \<Rightarrow> string list \<Rightarrow>
   string list option" where
  "collectLoop recur i [] descendants = Some descendants"
| "collectLoop recur i (n # ns) descendants =
     (if parentId n = Some i then
        (case recur (nid n) of
           None \<Rightarrow> None
         | Some ds \<Rightarrow> collectLoop recur i ns ((descendants @ [nid n]) @ ds))
      else collectLoop recur i ns descendants)"

primrec getDescendants :: "nat \<Rightarrow> node list \<Rightarrow> string \<Rightarrow> string list option" where
  "getDescendants 0 nds i = None"
| "getDescendants (Suc fuel) nds i = collectLoop (getDescendants fuel nds) i nds []"

definition handleDelete :: "string \<Rightarrow> editor \<Rightarrow> editor option" where
  "handleDelete nodeId st =
     (case getDescendants (Suc (length (nodes st))) (nodes st) nodeId of
        None \<Rightarrow> None
      | Some descendants \<Rightarrow>
          (let remainingNodes =
                 filter (\<lambda>n. nid n \<noteq> nodeId \<and> nid n \<notin> set descendants) (nodes st) in
           case layoutTree remainingNodes of
             None \<Rightarrow> None
           | Some laidOutNodes \<Rightarrow>
               (case computeEdges laidOutNodes of
                  None \<Rightarrow> None
                | Some es \<Rightarrow> Some (st\<lparr>nodes := laidOutNodes, edges := es\<rparr>))))"

section \<open>The controls of a rendered node\<close>

text \<open>
  \<^verbatim>\<open>nodeParentsRef.current\<close>: the effect stores \<^verbatim>\<open>parents[node.id] = node.data.parentId\<close>
  for every node with a truthy \<^verbatim>\<open>parentId\<close>, a later node overwriting an earlier one with
  the same id.
\<close>

definition nodeParents :: "node list \<Rightarrow> string \<Rightarrow> string option" where
  "nodeParents nds =
     fold (\<lambda>n m. case parentId n of
                    None \<Rightarrow> m
                  | Some p \<Rightarrow> if p \<noteq> [] then m(nid n \<mapsto> p) else m)
          nds Map.empty"

primrec isNodeDescendant ::
  "nat \<Rightarrow> (string \<Rightarrow> string option) \<Rightarrow> string \<Rightarrow> string \<Rightarrow> bool option" where
  "isNodeDescendant 0 parents nodeId potentialAncestorId = None"
| "isNodeDescendant (Suc fuel) parents nodeId potentialAncestorId =
     (if nodeId = potentialAncestorId then Some True
      else (case parents nodeId of
              None \<Rightarrow> Some False
            | Some p \<Rightarrow>
                if p = [] then Some False
                else isNodeDescendant fuel parents p potentialAncestorId))"

text \<open>
  \<^verbatim>\<open>CustomNode\<close> computes \<^verbatim>\<open>canBeRelinkTarget\<close> from its props \<^verbatim>\<open>id\<close> and \<^verbatim>\<open>data\<close> (the
  node \<open>n\<close>) and from \<^verbatim>\<open>nodeParentsRef.current\<close>.  The conjunction short-cuts, so
  \<^verbatim>\<open>isDescendant()\<close> is only called when \<^verbatim>\<open>isValidRelinkTarget\<close> is truthy.
\<close>

definition isDescendant :: "node list \<Rightarrow> node \<Rightarrow> bool option" where
  "isDescendant nds n =
     (if \<not> data_isRelinkMode n \<or> \<not> truthy (data_selectedNodeForRelink n) then Some False
      else isNodeDescendant (Suc (length nds)) (nodeParents nds) (nid n)
             (the (data_selectedNodeForRelink n)))"

definition isValidRelinkTarget :: "node \<Rightarrow> bool" where
  "isValidRelinkTarget n \<longleftrightarrow>
     data_isRelinkMode n \<and> truthy (data_selectedNodeForRelink n)
     \<and> data_selectedNodeForRelink n \<noteq> Some (nid n)"

definition canBeRelinkTarget :: "node list \<Rightarrow> node \<Rightarrow> bool option" where
  "canBeRelinkTarget nds n =
     (if \<not> isValidRelinkTarget n then Some False
      else (case isDescendant nds n of
              None \<Rightarrow> None
            | Some d \<Rightarrow>
                Some (\<not> d \<and> Some (nid n)
                              \<noteq> nodeParents nds (the (data_selectedNodeForRelink n)))))"

definition handleNodeClick :: "node \<Rightarrow> editor \<Rightarrow> editor option" where
  "handleNodeClick n st =
     (case canBeRelinkTarget (nodes st) n of
        None \<Rightarrow> None
      | Some can \<Rightarrow>
          if \<not> data_isRelinkMode n then Some st
          else if truthy (data_selectedNodeForRelink n) then
            (if can then handleRelink (the (data_selectedNodeForRelink n)) (nid n) st
             else Some st)
          else if parentId n \<noteq> None then Some (handleSelectForRelink (nid n) st)
          else Some st)"

text \<open>
  The plus icon calls \<^verbatim>\<open>data.onAddChild(id)\<close>.  Every node's \<^verbatim>\<open>onAddChild\<close> is the
  \<^verbatim>\<open>handleAddChild\<close> of the first render: the root gets it from the mount effect, a new
  node gets the \<^verbatim>\<open>handleAddChild\<close> that creates it, and nothing in \<^verbatim>\<open>v14.tsx\<close> that
  runs replaces it.  In the closure of that callback \<^verbatim>\<open>isRelinkMode\<close> is \<^verbatim>\<open>false\<close> and
  \<^verbatim>\<open>selectedNodeForRelink\<close> is \<^verbatim>\<open>null\<close>.
\<close>

definition plusClick :: "node \<Rightarrow> editor \<Rightarrow> editor option" where
  "plusClick n st = handleAddChild False None (nid n) st"

text \<open>
  The trash icon is rendered only under \<^verbatim>\<open>data.parentId !== null\<close>; where it is not
  rendered there is nothing to click and the state stays as it is.
\<close>

definition trashClick :: "node \<Rightarrow> editor \<Rightarrow> editor option" where
  "trashClick n st = (if parentId n \<noteq> None then handleDelete (nid n) st else Some st)"

text \<open>
  The commands of the interface.  A control of a node is addressed by the id of the
  rendered node; a command for an id that no node carries cannot be issued and is
  modelled as leaving the state unchanged.  The cancel button is rendered only while a
  node is selected.
\<close>

datatype command =
  PlusClick string
| TrashClick string
| NodeClick string
| ToggleRelinkMode
| CancelRelink

definition rendered :: "editor \<Rightarrow> string \<Rightarrow> node option" where
  "rendered st i = nodeById (nodes st) i"

fun perform :: "command \<Rightarrow> editor \<Rightarrow> editor option" where
  "perform (PlusClick i) st =
     (case rendered st i of None \<Rightarrow> Some st | Some n \<Rightarrow> plusClick n st)"
| "perform (TrashClick i) st =
     (case rendered st i of None \<Rightarrow> Some st | Some n \<Rightarrow> trashClick n st)"
| "perform (NodeClick i) st =
     (case rendered st i of None \<Rightarrow> Some st | Some n \<Rightarrow> handleNodeClick n st)"
| "perform ToggleRelinkMode st = Some (toggleRelinkMode st)"
| "perform CancelRelink st =
     (if truthy (selectedNodeForRelink st) then Some (cancelRelink st) else Some st)"

fun run :: "command list \<Rightarrow> editor \<Rightarrow> editor option" where
  "run [] st = Some st"
| "run (c # cs) st = (case perform c st of None \<Rightarrow> None | Some st' \<Rightarrow> run cs st')"

text \<open>The mount effect: the single root, laid out.\<close>

definition initialNode :: node where
  "initialNode =
     \<lparr> nid = ''1'',
        parentId = None,
        label = ''Main System'',
        ntype = NODE_TYPES ! 0,
        pos_x = 300,
        pos_y = 50,
        background = None,
        display = None,
        visible = None,
        draggable = False,
        data_isRelinkMode = False,
        data_selectedNodeForRelink = None,
        measured = None \<rparr>"

definition mount :: "editor option" where
  "mount =
     (case layoutTree [initialNode] of
        None \<Rightarrow> None
      | Some laidOutNodes \<Rightarrow>
          (case computeEdges laidOutNodes of
             None \<Rightarrow> None
           | Some es \<Rightarrow>
               Some \<lparr> nodes = laidOutNodes, edges = es, isRelinkMode = False,
                      selectedNodeForRelink = None, nextId = 2 \<rparr>))"

definition session :: "command list \<Rightarrow> editor option" where
  "session cs = (case mount of None \<Rightarrow> None | Some st \<Rightarrow> run cs st)"

section \<open>Trees\<close>

text \<open>
  The four invariants of the node set: exactly one node has a null \<^verbatim>\<open>parentId\<close>; the
  \<^verbatim>\<open>parentId\<close> of every other node names a node of the set; following \<^verbatim>\<open>parentId\<close>
  links from any node comes to a node with a null \<^verbatim>\<open>parentId\<close> (within as many nodes as
  the set has); the identifiers are pairwise different.
\<close>

fun reachesRoot :: "node list \<Rightarrow> nat \<Rightarrow> string \<Rightarrow> bool" where
  "reachesRoot nds 0 i = False"
| "reachesRoot nds (Suc k) i =
     (case nodeById nds i of
        None \<Rightarrow> False
      | Some n \<Rightarrow> (case parentId n of None \<Rightarrow> True | Some p \<Rightarrow> reachesRoot nds k p))"

definition treeInv :: "node list \<Rightarrow> bool" where
  "treeInv nds \<longleftrightarrow>
     length (filter (\<lambda>n. parentId n = None) nds) = 1
     \<and> (\<forall>n \<in> set nds. case parentId n of None \<Rightarrow> True | Some p \<Rightarrow> p \<in> set (map nid nds))
     \<and> (\<forall>n \<in> set nds. reachesRoot nds (length nds) (nid n))
     \<and> distinct (map nid nds)"

text \<open>
  Identifiers come from the counter (and the root is \<^verbatim>\<open>'1'\<close>), so they are never the
  empty string.  A well-formed tree is a node set with the four invariants and such
  identifiers.
\<close>

definition wellFormed :: "node list \<Rightarrow> bool" where
  "wellFormed nds \<longleftrightarrow> treeInv nds \<and> [] \<notin> set (map nid nds)"

text \<open>
  \<open>climb nds k i\<close> is the id that \<open>k\<close> \<^verbatim>\<open>parentId\<close> links lead to from \<open>i\<close>.  A node \<open>b\<close> is
  \<open>a\<close> itself or a transitive descendant of \<open>a\<close> when some number of links leads from \<open>b\<close>
  to \<open>a\<close>.
\<close>

fun climb :: "node list \<Rightarrow> nat \<Rightarrow> string \<Rightarrow> string option" where
  "climb nds 0 i = Some i"
| "climb nds (Suc k) i =
     (case nodeById nds i of
        None \<Rightarrow> None
      | Some n \<Rightarrow> (case parentId n of None \<Rightarrow> None | Some p \<Rightarrow> climb nds k p))"

definition ancestorOrSelf :: "node list \<Rightarrow> string \<Rightarrow> string \<Rightarrow> bool" where
  "ancestorOrSelf nds a b \<longleftrightarrow> (\<exists>k. climb nds k b = Some a)"

definition ancestor :: "node list \<Rightarrow> string \<Rightarrow> string \<Rightarrow> bool" where
  "ancestor nds a b \<longleftrightarrow> (\<exists>k. climb nds (Suc k) b = Some a)"

text \<open>
  The number of nodes on the chain of \<^verbatim>\<open>parentId\<close> links that starts at an id: 0 for an
  id that names no node, 1 for a node without parent.  The first argument bounds the
  walk.
\<close>

fun chainLength :: "node list \<Rightarrow> nat \<Rightarrow> string \<Rightarrow> nat option" where
  "chainLength nds 0 i = None"
| "chainLength nds (Suc f) i =
     (case nodeById nds i of
        None \<Rightarrow> Some 0
      | Some n \<Rightarrow>
          (case parentId n of
             None \<Rightarrow> Some 1
           | Some p \<Rightarrow> map_option Suc (chainLength nds f p)))"

text \<open>
  A node set is acyclic when every chain of \<^verbatim>\<open>parentId\<close> links ends: at a node without
  parent or at an id that names no node.
\<close>

definition acyclic :: "node list \<Rightarrow> bool" where
  "acyclic nds \<longleftrightarrow> (\<forall>n \<in> set nds. chainLength nds (Suc (length nds)) (nid n) \<noteq> None)"

section \<open>The layout as a list of visits\<close>

text \<open>
  \<^verbatim>\<open>layoutNode\<close> never reads what it has written: the centre, the row, the depth and the
  flag of a visit are arguments.  So a layout pass is the list of its visits, in order,
  applied to the store.
\<close>

type_synonym visit = "nat \<times> rat \<times> rat \<times> nat \<times> bool"

fun applyVisit :: "visit \<Rightarrow> node list \<Rightarrow> node list" where
  "applyVisit (i, xCenter, y, depth, vis) st = st[i := place xCenter y depth vis (st ! i)]"

fun visitChildren ::
  "(nat \<Rightarrow> rat \<Rightarrow> visit list option) \<Rightarrow> (nat \<times> rat) list \<Rightarrow> rat \<Rightarrow> visit list option" where
  "visitChildren visit [] currentX = Some []"
| "visitChildren visit ((child, childWidth) # rest) currentX =
     (case visit child (currentX + childWidth / 2) of
        None \<Rightarrow> None
      | Some vs \<Rightarrow>
          (case visitChildren visit rest (currentX + childWidth + HORIZONTAL_GAP) of
             None \<Rightarrow> None
           | Some vs' \<Rightarrow> Some (vs @ vs')))"

primrec visits ::
  "nat \<Rightarrow> (string \<Rightarrow> nat list) \<Rightarrow> node list \<Rightarrow> nat \<Rightarrow> rat \<Rightarrow> rat \<Rightarrow> nat \<Rightarrow> bool \<Rightarrow>
   visit list option" where
  "visits 0 cm nds i xCenter y depth vis = None"
| "visits (Suc fuel) cm nds i xCenter y depth vis =
     (let children = cm (nid (nds ! i)) in
      if children = [] then Some [(i, xCenter, y, depth, vis)]
      else (case those (map (getSubtreeWidth fuel cm nds) children) of
              None \<Rightarrow> None
            | Some childrenWidths \<Rightarrow>
                (let totalChildrenWidth =
                       sum_list childrenWidths
                       + (of_nat (length children) - 1) * HORIZONTAL_GAP in
                 case visitChildren
                        (\<lambda>child childCenter.
                           visits fuel cm nds child childCenter (y + VERTICAL_GAP) (depth + 1) vis)
                        (zip children childrenWidths)
                        (xCenter - totalChildrenWidth / 2) of
                   None \<Rightarrow> None
                 | Some vs \<Rightarrow> Some ((i, xCenter, y, depth, vis) # vs))))"

section \<open>Lookup and chains\<close>
lemma nodeById_SomeD: "nodeById nds i = Some n \<Longrightarrow> n \<in> set nds \<and> nid n = i"
  unfolding nodeById_def by (induction nds) (auto split: if_splits)

lemma nodeById_None_iff: "nodeById nds i = None \<longleftrightarrow> i \<notin> nid ` set nds"
  unfolding nodeById_def by (induction nds) auto

lemma nodeById_distinct:
  "distinct (map nid nds) \<Longrightarrow> n \<in> set nds \<Longrightarrow> nodeById nds (nid n) = Some n"
  unfolding nodeById_def by (induction nds) (auto simp: rev_image_eqI)

lemma nodeById_nth:
  "distinct (map nid nds) \<Longrightarrow> i < length nds \<Longrightarrow> nodeById nds (nid (nds ! i)) = Some (nds ! i)"
  by (simp add: nodeById_distinct)

definition chain :: "node list \<Rightarrow> string \<Rightarrow> nat \<Rightarrow> bool" where
  "chain nds i d \<longleftrightarrow> (\<exists>f. chainLength nds f i = Some d)"

lemma chainLength_add:
  "chainLength nds f i = Some d \<Longrightarrow> chainLength nds (f + k) i = Some d"
proof (induction f arbitrary: i d)
  case 0
  then show ?case by simp
next
  case (Suc f)
  then show ?case
    by (auto split: option.splits)
qed

lemma chainLength_mono:
  "chainLength nds f i = Some d \<Longrightarrow> f \<le> f' \<Longrightarrow> chainLength nds f' i = Some d"
  using chainLength_add[of nds f i d "f' - f"] by simp

lemma chain_fun: "chain nds i d \<Longrightarrow> chain nds i d' \<Longrightarrow> d = d'"
proof -
  assume "chain nds i d" "chain nds i d'"
  then obtain f f' where a: "chainLength nds f i = Some d" and b: "chainLength nds f' i = Some d'"
    by (auto simp: chain_def)
  have "chainLength nds (max f f') i = Some d" using a by (rule chainLength_mono) simp
  moreover have "chainLength nds (max f f') i = Some d'" using b by (rule chainLength_mono) simp
  ultimately show ?thesis by simp
qed

lemma chainLength_min:
  "chainLength nds f i = Some d \<Longrightarrow> chainLength nds (Suc d) i = Some d"
proof (induction f arbitrary: i d)
  case 0
  then show ?case by simp
next
  case (Suc f)
  show ?case
  proof (cases "nodeById nds i")
    case None
    with Suc.prems show ?thesis by simp
  next
    case (Some n)
    show ?thesis
    proof (cases "parentId n")
      case None
      with Some Suc.prems show ?thesis by auto
    next
      case (Some p)
      with \<open>nodeById nds i = Some n\<close> Suc.prems obtain d' where
        d': "chainLength nds f p = Some d'" "d = Suc d'" by auto
      from Suc.IH[OF d'(1)] have "chainLength nds (Suc d') p = Some d'" .
      with Some \<open>nodeById nds i = Some n\<close> d'(2) show ?thesis by simp
    qed
  qed
qed

lemma chain_missing: "i \<notin> nid ` set nds \<Longrightarrow> chain nds i 0"
proof -
  assume "i \<notin> nid ` set nds"
  then have "nodeById nds i = None" by (simp add: nodeById_None_iff)
  then have "chainLength nds (Suc 0) i = Some 0" by simp
  then show ?thesis unfolding chain_def by blast
qed

lemma chain_root:
  "nodeById nds i = Some n \<Longrightarrow> parentId n = None \<Longrightarrow> chain nds i 1"
  unfolding chain_def by (rule exI[of _ "Suc 0"]) simp

lemma chain_step:
  "nodeById nds i = Some n \<Longrightarrow> parentId n = Some p \<Longrightarrow> chain nds p d \<Longrightarrow> chain nds i (Suc d)"
  unfolding chain_def
proof -
  assume a: "nodeById nds i = Some n" "parentId n = Some p" "\<exists>f. chainLength nds f p = Some d"
  then obtain f where "chainLength nds f p = Some d" by blast
  with a have "chainLength nds (Suc f) i = Some (Suc d)" by simp
  then show "\<exists>f. chainLength nds f i = Some (Suc d)" by blast
qed

lemma chain_stepD:
  "nodeById nds i = Some n \<Longrightarrow> parentId n = Some p \<Longrightarrow> chain nds i d \<Longrightarrow>
   \<exists>d'. d = Suc d' \<and> chain nds p d'"
  unfolding chain_def
proof -
  assume a: "nodeById nds i = Some n" "parentId n = Some p" "\<exists>f. chainLength nds f i = Some d"
  then obtain f where f: "chainLength nds f i = Some d" by blast
  then obtain f' where "f = Suc f'" by (cases f) auto
  with f a show "\<exists>d'. d = Suc d' \<and> (\<exists>f. chainLength nds f p = Some d')" by auto
qed

lemma chain_levels:
  "chainLength nds f i = Some d \<Longrightarrow> 1 \<le> j \<Longrightarrow> j \<le> d \<Longrightarrow> \<exists>a \<in> set nds. chain nds (nid a) j"
proof (induction f arbitrary: i d)
  case 0
  then show ?case by simp
next
  case (Suc f)
  show ?case
  proof (cases "nodeById nds i")
    case None
    with Suc.prems show ?thesis by simp
  next
    case (Some n)
    then have n: "n \<in> set nds" "nid n = i" by (auto dest: nodeById_SomeD)
    show ?thesis
    proof (cases "j = d")
      case True
      have "chain nds (nid n) d" using Suc.prems(1) n unfolding chain_def by blast
      with True n show ?thesis by blast
    next
      case False
      with Suc.prems Some obtain p d' where
        "parentId n = Some p" "chainLength nds f p = Some d'" "d = Suc d'"
        by (auto split: option.splits)
      with Suc.IH[of p d'] Suc.prems False show ?thesis by auto
    qed
  qed
qed

lemma chainLength_bound:
  assumes "chainLength nds f i = Some d"
  shows "d \<le> length nds"
proof -
  define g where "g a = (THE j. chain nds (nid a) j)" for a :: node
  have g: "g a = j" if "chain nds (nid a) j" for a j
    unfolding g_def using that by (auto intro: chain_fun)
  have "{1..d} \<subseteq> g ` set nds"
  proof
    fix j assume "j \<in> {1..d}"
    then obtain a where "a \<in> set nds" "chain nds (nid a) j"
      using chain_levels[OF assms, of j] by auto
    then show "j \<in> g ` set nds" using g by force
  qed
  then have "card {1..d} \<le> card (g ` set nds)" by (intro card_mono) auto
  also have "\<dots> \<le> card (set nds)" by (rule card_image_le) simp
  also have "\<dots> \<le> length nds" by (rule card_length)
  finally show ?thesis by simp
qed

lemma chain_bound: "chain nds i d \<Longrightarrow> d \<le> length nds"
  unfolding chain_def using chainLength_bound by blast

lemma chain_fuel: "chain nds i d \<Longrightarrow> d < f \<Longrightarrow> chainLength nds f i = Some d"
  unfolding chain_def using chainLength_min chainLength_mono
  by (metis Suc_leI)

lemma acyclic_chain: "acyclic nds \<Longrightarrow> n \<in> set nds \<Longrightarrow> \<exists>d. chain nds (nid n) d"
  unfolding acyclic_def chain_def by blast

lemma acyclicI: "(\<And>n. n \<in> set nds \<Longrightarrow> \<exists>d. chain nds (nid n) d) \<Longrightarrow> acyclic nds"
  unfolding acyclic_def
  using chain_fuel chain_bound by (metis le_imp_less_Suc option.distinct(1))


lemma map_update_same: "(map g st)[a := g (st ! a)] = map g st"
  by (cases "a < length st") (simp_all add: list_update_same_conv list_update_beyond)

lemma map_nth_eq:
  "map g st = map g nds \<Longrightarrow> i < length nds \<Longrightarrow> g (st ! i) = g (nds ! i)"
  by (metis length_map nth_map)

subsection \<open>Children map\<close>

lemma childrenMap_snoc:
  "childrenMap (nds @ [x]) =
     (case parentId x of
        None \<Rightarrow> childrenMap nds
      | Some p \<Rightarrow> if p \<noteq> [] then (childrenMap nds)(p := childrenMap nds p @ [length nds])
                  else childrenMap nds)"
  by (simp add: childrenMap_def enumerate_append_eq split: option.splits)

lemma childrenMap_filter:
  "childrenMap nds p = filter (\<lambda>i. parentId (nds ! i) = Some p \<and> p \<noteq> []) [0..<length nds]"
proof (induction nds rule: rev_induct)
  case Nil
  show ?case by (simp add: childrenMap_def)
next
  case (snoc x xs)
  have "filter (\<lambda>i. parentId ((xs @ [x]) ! i) = Some p \<and> p \<noteq> []) [0..<length xs]
        = filter (\<lambda>i. parentId (xs ! i) = Some p \<and> p \<noteq> []) [0..<length xs]"
    by (rule filter_cong) (auto simp: nth_append)
  with snoc show ?case
    by (auto simp: childrenMap_snoc split: option.splits)
qed

lemma in_childrenMap:
  "c \<in> set (childrenMap nds p) \<longleftrightarrow> c < length nds \<and> parentId (nds ! c) = Some p \<and> p \<noteq> []"
  by (auto simp: childrenMap_filter)

lemma distinct_childrenMap: "distinct (childrenMap nds p)"
  by (simp add: childrenMap_filter)

lemma childrenMap_cong:
  "map parentId st = map parentId nds \<Longrightarrow> childrenMap st = childrenMap nds"
proof
  fix p
  assume a: "map parentId st = map parentId nds"
  then have l: "length st = length nds" by (rule map_eq_imp_length_eq)
  have "filter (\<lambda>i. parentId (st ! i) = Some p \<and> p \<noteq> []) [0..<length nds]
        = filter (\<lambda>i. parentId (nds ! i) = Some p \<and> p \<noteq> []) [0..<length nds]"
  proof (rule filter_cong[OF refl])
    fix i assume "i \<in> set [0..<length nds]"
    then have "i < length nds" by simp
    with a have "parentId (st ! i) = parentId (nds ! i)"
      by (rule map_nth_eq)
    then show "(parentId (st ! i) = Some p \<and> p \<noteq> []) = (parentId (nds ! i) = Some p \<and> p \<noteq> [])"
      by simp
  qed
  with l show "childrenMap st p = childrenMap nds p" by (simp add: childrenMap_filter)
qed

subsection \<open>Subtree widths\<close>

lemma those_map_Some_iff:
  "those (map g cs) = Some ws \<longleftrightarrow> map g cs = map Some ws"
proof (induction cs arbitrary: ws)
  case Nil
  show ?case by auto
next
  case (Cons c cs)
  show ?case
    by (cases "g c"; cases ws) (auto simp: Cons.IH split: option.splits)
qed

lemma those_map_None_iff:
  "those (map g cs) = None \<longleftrightarrow> (\<exists>c \<in> set cs. g c = None)"
  by (induction cs) (auto split: option.splits)

lemma sumWidths_those:
  "sumWidths g cs acc = map_option (\<lambda>ws. acc + sum_list ws) (those (map g cs))"
  by (induction cs arbitrary: acc) (auto split: option.splits simp: option.map_comp o_def add.assoc)

lemma map_cong_those:
  "(\<And>c. c \<in> set cs \<Longrightarrow> g c = g' c) \<Longrightarrow> those (map g cs) = those (map g' cs)"
  by (metis map_cong)

lemma getSubtreeWidth_add:
  "getSubtreeWidth f cm st i = Some w \<Longrightarrow> getSubtreeWidth (f + k) cm st i = Some w"
proof (induction f arbitrary: i w)
  case 0
  then show ?case by simp
next
  case (Suc f)
  let ?cs = "cm (nid (st ! i))"
  show ?case
  proof (cases "?cs = []")
    case True
    with Suc.prems show ?thesis by simp
  next
    case False
    with Suc.prems obtain ws where
      ws: "those (map (getSubtreeWidth f cm st) ?cs) = Some ws"
      by (auto simp: sumWidths_those Let_def split: option.splits)
    then have "map (getSubtreeWidth f cm st) ?cs = map Some ws"
      by (simp add: those_map_Some_iff)
    then have "\<And>c. c \<in> set ?cs \<Longrightarrow> \<exists>w. getSubtreeWidth f cm st c = Some w"
      by (metis (no_types, lifting) imageE image_eqI list.set_map)
    then have "\<And>c. c \<in> set ?cs \<Longrightarrow> getSubtreeWidth (f + k) cm st c = getSubtreeWidth f cm st c"
      using Suc.IH by fastforce
    then have "those (map (getSubtreeWidth (f + k) cm st) ?cs)
               = those (map (getSubtreeWidth f cm st) ?cs)"
      by (rule map_cong_those)
    with Suc.prems False show ?thesis
      by (simp add: sumWidths_those Let_def)
  qed
qed

lemma getSubtreeWidth_mono:
  "getSubtreeWidth f cm st i = Some w \<Longrightarrow> f \<le> f' \<Longrightarrow> getSubtreeWidth f' cm st i = Some w"
  using getSubtreeWidth_add[of f cm st i w "f' - f"] by simp

lemma getSubtreeWidth_cong:
  assumes "map nid st = map nid nds"
  shows "i < length nds \<Longrightarrow>
         getSubtreeWidth f (childrenMap nds) st i = getSubtreeWidth f (childrenMap nds) nds i"
proof (induction f arbitrary: i)
  case 0
  show ?case by simp
next
  case (Suc f)
  from assms have l: "length st = length nds" by (rule map_eq_imp_length_eq)
  from assms Suc.prems have n: "nid (st ! i) = nid (nds ! i)" by (rule map_nth_eq)
  let ?cs = "childrenMap nds (nid (nds ! i))"
  have "\<And>c. c \<in> set ?cs \<Longrightarrow>
          getSubtreeWidth f (childrenMap nds) st c = getSubtreeWidth f (childrenMap nds) nds c"
    using Suc.IH by (simp add: in_childrenMap)
  then have "those (map (getSubtreeWidth f (childrenMap nds) st) ?cs)
             = those (map (getSubtreeWidth f (childrenMap nds) nds) ?cs)"
    by (rule map_cong_those)
  then show ?case by (simp add: n sumWidths_those Let_def)
qed

subsection \<open>Visits\<close>

lemma place_fields [simp]:
  "nid (place xc y d v n) = nid n"
  "parentId (place xc y d v n) = parentId n"
  "label (place xc y d v n) = label n"
  "ntype (place xc y d v n) = ntype n"
  "draggable (place xc y d v n) = draggable n"
  "data_isRelinkMode (place xc y d v n) = data_isRelinkMode n"
  "data_selectedNodeForRelink (place xc y d v n) = data_selectedNodeForRelink n"
  "measured (place xc y d v n) = measured n"
  by (simp_all add: place_def)

lemma length_applyVisit [simp]: "length (applyVisit v st) = length st"
  by (cases v) simp

lemma length_fold_applyVisit [simp]: "length (fold applyVisit vs st) = length st"
  by (induction vs arbitrary: st) auto

lemma applyVisit_nid [simp]: "map nid (applyVisit v st) = map nid st"
  by (cases v) (simp add: map_update map_update_same)

lemma fold_applyVisit_nid [simp]: "map nid (fold applyVisit vs st) = map nid st"
  by (induction vs arbitrary: st) auto

lemma layoutChildren_visits:
  assumes IH: "\<And>st c xcc. map nid st = map nid nds \<Longrightarrow> c < length nds \<Longrightarrow>
                 lay st c xcc = map_option (\<lambda>vs. fold applyVisit vs st) (vis c xcc)"
  shows "map nid st = map nid nds \<Longrightarrow> \<forall>c \<in> set (map fst zs). c < length nds \<Longrightarrow>
         layoutChildren lay zs cx st
         = map_option (\<lambda>vs. fold applyVisit vs st) (visitChildren vis zs cx)"
proof (induction zs arbitrary: cx st)
  case Nil
  show ?case by simp
next
  case (Cons z zs)
  obtain c w where z: "z = (c, w)" by (cases z)
  from Cons.prems z have c: "c < length nds" by simp
  show ?case
  proof (cases "vis c (cx + w / 2)")
    case None
    with IH[OF Cons.prems(1) c] z show ?thesis by simp
  next
    case (Some vs)
    have "map nid (fold applyVisit vs st) = map nid nds" using Cons.prems(1) by simp
    from Cons.IH[OF this] Cons.prems(2)
    have "layoutChildren lay zs (cx + w + HORIZONTAL_GAP) (fold applyVisit vs st)
          = map_option (\<lambda>vs'. fold applyVisit vs' (fold applyVisit vs st))
              (visitChildren vis zs (cx + w + HORIZONTAL_GAP))"
      by simp
    with IH[OF Cons.prems(1) c] Some z show ?thesis
      by (auto split: option.splits)
  qed
qed

lemma layoutNode_visits:
  "map nid st = map nid nds \<Longrightarrow> i < length nds \<Longrightarrow>
   layoutNode f (childrenMap nds) st i xc y d v
   = map_option (\<lambda>vs. fold applyVisit vs st) (visits f (childrenMap nds) nds i xc y d v)"
proof (induction f arbitrary: st i xc y d)
  case 0
  show ?case by simp
next
  case (Suc f)
  let ?cm = "childrenMap nds"
  let ?st1 = "st[i := place xc y d v (st ! i)]"
  from Suc.prems have l: "length st = length nds" using map_eq_imp_length_eq by blast
  have "map nid ?st1 = map nid st"
    by (simp add: map_update map_update_same)
  with Suc.prems(1) have st1: "map nid ?st1 = map nid nds" by simp
  have n1: "nid (?st1 ! i) = nid (nds ! i)" using st1 Suc.prems(2) by (rule map_nth_eq)
  let ?cs = "?cm (nid (nds ! i))"
  have cs: "\<forall>c \<in> set ?cs. c < length nds" by (simp add: in_childrenMap)
  have w: "those (map (getSubtreeWidth f ?cm ?st1) ?cs) = those (map (getSubtreeWidth f ?cm nds) ?cs)"
    using getSubtreeWidth_cong[OF st1] cs by (intro map_cong_those) blast
  show ?case
  proof (cases "?cs = []")
    case True
    then show ?thesis by (simp add: n1 Let_def del: nth_list_update_eq)
  next
    case False
    show ?thesis
    proof (cases "those (map (getSubtreeWidth f ?cm nds) ?cs)")
      case None
      with False w show ?thesis by (simp add: n1 Let_def del: nth_list_update_eq)
    next
      case (Some ws)
      then have "length ws = length ?cs"
        by (metis those_map_Some_iff length_map)
      then have zs: "\<forall>c \<in> set (map fst (zip ?cs ws)). c < length nds"
        using cs by simp
      let ?tot = "sum_list ws + (of_nat (length ?cs) - 1) * HORIZONTAL_GAP"
      have "layoutChildren
              (\<lambda>s child childCenter. layoutNode f ?cm s child childCenter (y + VERTICAL_GAP) (d + 1) v)
              (zip ?cs ws) (xc - ?tot / 2) ?st1
            = map_option (\<lambda>vs. fold applyVisit vs ?st1)
                (visitChildren
                   (\<lambda>child childCenter. visits f ?cm nds child childCenter (y + VERTICAL_GAP) (d + 1) v)
                   (zip ?cs ws) (xc - ?tot / 2))"
        by (rule layoutChildren_visits[OF _ st1 zs]) (rule Suc.IH)
      with False Some w show ?thesis
        by (simp add: n1 Let_def option.map_comp o_def del: nth_list_update_eq split: option.splits)
    qed
  qed
qed

subsection \<open>Structure-preserving changes\<close>

definition sameStructure :: "node list \<Rightarrow> node list \<Rightarrow> bool" where
  "sameStructure a b \<longleftrightarrow> map nid a = map nid b \<and> map parentId a = map parentId b"

lemma sameStructure_refl [simp]: "sameStructure a a"
  by (simp add: sameStructure_def)

lemma sameStructure_sym: "sameStructure a b \<Longrightarrow> sameStructure b a"
  by (simp add: sameStructure_def)

lemma sameStructure_trans: "sameStructure a b \<Longrightarrow> sameStructure b c \<Longrightarrow> sameStructure a c"
  by (simp add: sameStructure_def)

lemma sameStructure_length: "sameStructure a b \<Longrightarrow> length a = length b"
  unfolding sameStructure_def using map_eq_imp_length_eq by blast

lemma find_map_cong:
  "map g a = map g b \<Longrightarrow> map h a = map h b \<Longrightarrow>
   map_option h (find (\<lambda>n. g n = i) a) = map_option h (find (\<lambda>n. g n = i) b)"
proof (induction a arbitrary: b)
  case Nil
  then show ?case by simp
next
  case (Cons x xs)
  then obtain y ys where b: "b = y # ys" by (cases b) auto
  with Cons.prems have "g x = g y" "h x = h y" "map g xs = map g ys" "map h xs = map h ys"
    by auto
  with Cons.IH[of ys] b show ?case by auto
qed

lemma parentOf_cong:
  "sameStructure a b \<Longrightarrow>
   map_option parentId (nodeById a i) = map_option parentId (nodeById b i)"
  by (auto simp: sameStructure_def nodeById_def intro: find_map_cong)

lemma nodeById_cases_cong:
  assumes "sameStructure a b"
  shows "(case nodeById a i of None \<Rightarrow> x | Some n \<Rightarrow> g (parentId n))
         = (case nodeById b i of None \<Rightarrow> x | Some n \<Rightarrow> g (parentId n))"
  using parentOf_cong[OF assms, of i]
  by (cases "nodeById a i"; cases "nodeById b i") auto

lemma reachesRoot_cong:
  assumes "sameStructure a b"
  shows "reachesRoot a k i = reachesRoot b k i"
proof (induction k arbitrary: i)
  case 0
  show ?case by simp
next
  case (Suc k)
  from parentOf_cong[OF assms, of i] show ?case
    by (cases "nodeById a i"; cases "nodeById b i") (auto simp: Suc.IH split: option.splits)
qed

lemma climb_cong:
  assumes "sameStructure a b"
  shows "climb a k i = climb b k i"
proof (induction k arbitrary: i)
  case 0
  show ?case by simp
next
  case (Suc k)
  from parentOf_cong[OF assms, of i] show ?case
    by (cases "nodeById a i"; cases "nodeById b i") (auto simp: Suc.IH split: option.splits)
qed

lemma chainLength_cong:
  assumes "sameStructure a b"
  shows "chainLength a k i = chainLength b k i"
proof (induction k arbitrary: i)
  case 0
  show ?case by simp
next
  case (Suc k)
  from parentOf_cong[OF assms, of i] show ?case
    by (cases "nodeById a i"; cases "nodeById b i") (auto simp: Suc.IH split: option.splits)
qed

lemma filter_length_cong:
  "map h a = map h b \<Longrightarrow> length (filter (\<lambda>n. P (h n)) a) = length (filter (\<lambda>n. P (h n)) b)"
proof (induction a arbitrary: b)
  case Nil
  then show ?case by simp
next
  case (Cons x xs)
  then obtain y ys where "b = y # ys" by (cases b) auto
  with Cons show ?case by auto
qed

lemma treeInv_cong:
  assumes s: "sameStructure a b"
  shows "treeInv a = treeInv b"
proof -
  have l: "length a = length b" using s by (rule sameStructure_length)
  have ids: "map nid a = map nid b" and ps: "map parentId a = map parentId b"
    using s by (simp_all add: sameStructure_def)
  have 1: "length (filter (\<lambda>n. parentId n = None) a) = length (filter (\<lambda>n. parentId n = None) b)"
    using filter_length_cong[OF ps, of "\<lambda>p. p = None"] by simp
  have 2: "(\<forall>n \<in> set a. case parentId n of None \<Rightarrow> True | Some p \<Rightarrow> p \<in> set (map nid a))
           = (\<forall>n \<in> set b. case parentId n of None \<Rightarrow> True | Some p \<Rightarrow> p \<in> set (map nid b))"
  proof -
    have "(\<forall>n \<in> set a. case parentId n of None \<Rightarrow> True | Some p \<Rightarrow> p \<in> set (map nid a))
          = (\<forall>q \<in> set (map parentId a). case q of None \<Rightarrow> True | Some p \<Rightarrow> p \<in> set (map nid a))"
      by simp
    also have "\<dots> = (\<forall>q \<in> set (map parentId b). case q of None \<Rightarrow> True | Some p \<Rightarrow> p \<in> set (map nid b))"
      by (simp only: ids ps)
    finally show ?thesis by simp
  qed
  have 3: "(\<forall>n \<in> set a. reachesRoot a (length a) (nid n))
           = (\<forall>n \<in> set b. reachesRoot b (length b) (nid n))"
  proof -
    have "(\<forall>n \<in> set a. reachesRoot a (length a) (nid n))
          = (\<forall>i \<in> set (map nid a). reachesRoot b (length b) i)"
      by (simp add: reachesRoot_cong[OF s] l)
    also have "\<dots> = (\<forall>i \<in> set (map nid b). reachesRoot b (length b) i)"
      by (simp only: ids)
    finally show ?thesis by simp
  qed
  have "treeInv a \<longleftrightarrow>
          length (filter (\<lambda>n. parentId n = None) a) = 1
          \<and> (\<forall>n \<in> set a. case parentId n of None \<Rightarrow> True | Some p \<Rightarrow> p \<in> set (map nid a))
          \<and> (\<forall>n \<in> set a. reachesRoot a (length a) (nid n))
          \<and> distinct (map nid a)"
    by (simp only: treeInv_def)
  also have "\<dots> \<longleftrightarrow>
          length (filter (\<lambda>n. parentId n = None) b) = 1
          \<and> (\<forall>n \<in> set b. case parentId n of None \<Rightarrow> True | Some p \<Rightarrow> p \<in> set (map nid b))
          \<and> (\<forall>n \<in> set b. reachesRoot b (length b) (nid n))
          \<and> distinct (map nid a)"
    by (simp only: 1 2 3)
  also have "\<dots> \<longleftrightarrow> treeInv b"
    by (simp only: treeInv_def ids)
  finally show ?thesis .
qed

lemma wellFormed_cong: "sameStructure a b \<Longrightarrow> wellFormed a = wellFormed b"
  unfolding wellFormed_def using treeInv_cong[of a b] by (simp add: sameStructure_def)

lemma chain_cong: "sameStructure a b \<Longrightarrow> chain a i d = chain b i d"
  unfolding chain_def by (simp add: chainLength_cong)

lemma acyclic_cong:
  assumes s: "sameStructure a b"
  shows "acyclic a = acyclic b"
proof -
  have q: "(\<forall>n \<in> set c. Q (nid n)) \<longleftrightarrow> (\<forall>i \<in> set (map nid c). Q i)" for Q and c :: "node list"
    by simp
  have ids: "map nid a = map nid b" using s by (simp add: sameStructure_def)
  have "acyclic a \<longleftrightarrow> (\<forall>n \<in> set a. chainLength b (Suc (length b)) (nid n) \<noteq> None)"
    by (simp only: acyclic_def chainLength_cong[OF s] sameStructure_length[OF s])
  also have "\<dots> \<longleftrightarrow> (\<forall>i \<in> set (map nid a). chainLength b (Suc (length b)) i \<noteq> None)"
    by (rule q)
  also have "\<dots> \<longleftrightarrow> (\<forall>i \<in> set (map nid b). chainLength b (Suc (length b)) i \<noteq> None)"
    by (simp only: ids)
  also have "\<dots> \<longleftrightarrow> acyclic b"
    by (simp only: acyclic_def q[symmetric])
  finally show ?thesis .
qed

subsection \<open>Trees are acyclic\<close>

lemma reachesRoot_chainLength:
  "reachesRoot nds k i \<Longrightarrow> \<exists>d. chainLength nds k i = Some d \<and> 1 \<le> d"
proof (induction k arbitrary: i)
  case 0
  then show ?case by simp
next
  case (Suc k)
  then show ?case by (fastforce split: option.splits)
qed

lemma treeInv_distinct: "treeInv nds \<Longrightarrow> distinct (map nid nds)"
  by (simp add: treeInv_def)

lemma treeInv_chain:
  "treeInv nds \<Longrightarrow> n \<in> set nds \<Longrightarrow> \<exists>d. chain nds (nid n) d \<and> 1 \<le> d"
  unfolding treeInv_def chain_def using reachesRoot_chainLength by blast

lemma treeInv_acyclic: "treeInv nds \<Longrightarrow> acyclic nds"
  by (rule acyclicI) (use treeInv_chain in blast)

lemma chain_child:
  assumes "distinct (map nid nds)" "c \<in> set nds" "parentId c = Some p" "chain nds p d"
  shows "chain nds (nid c) (Suc d)"
  using chain_step[OF nodeById_distinct[OF assms(1,2)] assms(3,4)] .

lemma chain_exists_of_acyclic:
  assumes "acyclic nds"
  shows "\<exists>d. chain nds i d"
proof (cases "i \<in> nid ` set nds")
  case True
  with assms show ?thesis using acyclic_chain by blast
next
  case False
  then show ?thesis using chain_missing by blast
qed

subsection \<open>The layout returns\<close>

lemma getSubtreeWidth_returns:
  assumes dist: "distinct (map nid nds)"
  shows "i < length nds \<Longrightarrow> chain nds (nid (nds ! i)) d \<Longrightarrow> length nds < f + d \<Longrightarrow>
         \<exists>w. getSubtreeWidth f (childrenMap nds) nds i = Some w"
proof (induction f arbitrary: i d)
  case 0
  with chain_bound[of nds "nid (nds ! i)" d] show ?case by simp
next
  case (Suc f)
  let ?cs = "childrenMap nds (nid (nds ! i))"
  have "\<exists>w. getSubtreeWidth f (childrenMap nds) nds c = Some w" if c: "c \<in> set ?cs" for c
  proof -
    from c have cl: "c < length nds" and p: "parentId (nds ! c) = Some (nid (nds ! i))"
      by (simp_all add: in_childrenMap)
    have "chain nds (nid (nds ! c)) (Suc d)"
      using chain_child[OF dist _ p Suc.prems(2)] cl by simp
    from Suc.IH[OF cl this] Suc.prems(3) show ?thesis by simp
  qed
  then have "those (map (getSubtreeWidth f (childrenMap nds) nds) ?cs) \<noteq> None"
    by (auto simp: those_map_None_iff)
  then show ?case
    by (auto simp: sumWidths_those Let_def)
qed

lemma visitChildren_returns:
  "(\<And>c x. c \<in> set (map fst zs) \<Longrightarrow> \<exists>vs. vis c x = Some vs) \<Longrightarrow>
   \<exists>vs. visitChildren vis zs cx = Some vs"
proof (induction zs arbitrary: cx)
  case Nil
  show ?case by simp
next
  case (Cons z zs)
  obtain c w where z: "z = (c, w)" by (cases z)
  from Cons.prems z obtain vs where "vis c (cx + w / 2) = Some vs" by fastforce
  moreover from Cons obtain vs' where
    "visitChildren vis zs (cx + w + HORIZONTAL_GAP) = Some vs'" by fastforce
  ultimately show ?case using z by simp
qed

lemma visits_returns:
  assumes dist: "distinct (map nid nds)"
  shows "i < length nds \<Longrightarrow> chain nds (nid (nds ! i)) d \<Longrightarrow> length nds < f + d \<Longrightarrow>
         \<exists>vs. visits f (childrenMap nds) nds i xc y dep v = Some vs"
proof (induction f arbitrary: i d xc y dep)
  case 0
  with chain_bound[of nds "nid (nds ! i)" d] show ?case by simp
next
  case (Suc f)
  let ?cm = "childrenMap nds"
  let ?cs = "?cm (nid (nds ! i))"
  have ch: "c < length nds \<and> chain nds (nid (nds ! c)) (Suc d)" if c: "c \<in> set ?cs" for c
  proof -
    from c have cl: "c < length nds" and p: "parentId (nds ! c) = Some (nid (nds ! i))"
      by (simp_all add: in_childrenMap)
    then show ?thesis using chain_child[OF dist _ p Suc.prems(2)] by simp
  qed
  have "\<exists>w. getSubtreeWidth f ?cm nds c = Some w" if c: "c \<in> set ?cs" for c
    using getSubtreeWidth_returns[OF dist, of c "Suc d" f] ch[OF c] Suc.prems(3) by simp
  then obtain ws where ws: "those (map (getSubtreeWidth f ?cm nds) ?cs) = Some ws"
    by (fastforce simp: those_map_None_iff)
  let ?tot = "sum_list ws + (of_nat (length ?cs) - 1) * HORIZONTAL_GAP"
  have "\<exists>vs. visitChildren
               (\<lambda>child childCenter. visits f ?cm nds child childCenter (y + VERTICAL_GAP) (dep + 1) v)
               (zip ?cs ws) (xc - ?tot / 2) = Some vs"
  proof (rule visitChildren_returns)
    fix c x assume "c \<in> set (map fst (zip ?cs ws))"
    then have "c \<in> set ?cs" by (auto dest: set_zip_leftD)
    from ch[OF this] Suc.prems(3)
    show "\<exists>vs. visits f ?cm nds c x (y + VERTICAL_GAP) (dep + 1) v = Some vs"
      using Suc.IH[of c "Suc d"] by simp
  qed
  then obtain vs where
    "visitChildren
       (\<lambda>child childCenter. visits f ?cm nds child childCenter (y + VERTICAL_GAP) (dep + 1) v)
       (zip ?cs ws) (xc - ?tot / 2) = Some vs" by blast
  with ws show ?case
    by (simp add: Let_def)
qed

subsection \<open>A layout pass is its list of visits\<close>

fun rootVisits :: "nat \<Rightarrow> (string \<Rightarrow> nat list) \<Rightarrow> node list \<Rightarrow> nat list \<Rightarrow> visit list option" where
  "rootVisits fuel cm nds [] = Some []"
| "rootVisits fuel cm nds (i # is) =
     (if \<not> truthy (parentId (nds ! i)) then
        (case visits fuel cm nds i (pos_x (nds ! i) + NODE_WIDTH / 2) (pos_y (nds ! i)) 0 True of
           None \<Rightarrow> None
         | Some vs \<Rightarrow>
             (case rootVisits fuel cm nds is of None \<Rightarrow> None | Some vs' \<Rightarrow> Some (vs @ vs')))
      else rootVisits fuel cm nds is)"

definition tidy :: "node list \<Rightarrow> node list" where
  "tidy nds = map (\<lambda>n. n\<lparr>draggable := False\<rparr>) nds"

definition layoutVisits :: "node list \<Rightarrow> visit list option" where
  "layoutVisits nds =
     rootVisits (Suc (length nds)) (childrenMap nds) (tidy nds) [0..<length nds]"

lemma visitChildren_mem:
  "visitChildren vis zs cx = Some vs \<Longrightarrow> e \<in> set vs \<Longrightarrow>
   \<exists>c x vs'. c \<in> set (map fst zs) \<and> vis c x = Some vs' \<and> e \<in> set vs'"
proof (induction zs arbitrary: cx vs)
  case Nil
  then show ?case by simp
next
  case (Cons z zs)
  obtain c w where z: "z = (c, w)" by (cases z)
  from Cons.prems z obtain v1 v2 where
    v: "vis c (cx + w / 2) = Some v1" "visitChildren vis zs (cx + w + HORIZONTAL_GAP) = Some v2"
       "vs = v1 @ v2"
    by (auto split: option.splits)
  show ?case
  proof (cases "e \<in> set v1")
    case True
    with v z show ?thesis by auto
  next
    case False
    with v Cons.prems have "e \<in> set v2" by simp
    from Cons.IH[OF v(2) this] show ?thesis by auto
  qed
qed

lemma visits_indices:
  "visits f (childrenMap nds) nds i xc y d v = Some vs \<Longrightarrow> e \<in> set vs \<Longrightarrow>
   e = (i, xc, y, d, v) \<or> (fst e < length nds \<and> truthy (parentId (nds ! fst e)))"
proof (induction f arbitrary: i xc y d vs e)
  case 0
  then show ?case by simp
next
  case (Suc f)
  let ?cm = "childrenMap nds"
  let ?cs = "?cm (nid (nds ! i))"
  show ?case
  proof (cases "e = (i, xc, y, d, v)")
    case True
    then show ?thesis by simp
  next
    case False
    with Suc.prems obtain ws vs' where
      ws: "those (map (getSubtreeWidth f ?cm nds) ?cs) = Some ws"
      and vc: "visitChildren
                (\<lambda>child childCenter. visits f ?cm nds child childCenter (y + VERTICAL_GAP) (d + 1) v)
                (zip ?cs ws)
                (xc - (sum_list ws + (of_nat (length ?cs) - 1) * HORIZONTAL_GAP) / 2) = Some vs'"
      and e: "e \<in> set vs'"
      by (auto simp: Let_def split: if_splits option.splits)
    from visitChildren_mem[OF vc e] obtain c x vs'' where
      c: "c \<in> set (map fst (zip ?cs ws))"
      and v'': "visits f ?cm nds c x (y + VERTICAL_GAP) (d + 1) v = Some vs''" "e \<in> set vs''"
      by blast
    from c have "c \<in> set ?cs" by (auto dest: set_zip_leftD)
    then have "c < length nds \<and> truthy (parentId (nds ! c))" by (simp add: in_childrenMap)
    with Suc.IH[OF v''] show ?thesis by auto
  qed
qed

lemma place_place [simp]: "place xc y d v (place xc' y' d' v' n) = place xc y d v n"
  by (simp add: place_def)

lemma applyVisit_parentId [simp]: "map parentId (applyVisit v st) = map parentId st"
  by (cases v) (simp add: map_update map_update_same)

lemma fold_applyVisit_parentId [simp]: "map parentId (fold applyVisit vs st) = map parentId st"
  by (induction vs arbitrary: st) auto

lemma fold_applyVisit_sameStructure: "sameStructure (fold applyVisit vs st) st"
  by (simp add: sameStructure_def)

lemma fold_applyVisit_nth:
  "j < length st \<Longrightarrow>
   fold applyVisit vs st ! j =
     (case find (\<lambda>e. fst e = j) (rev vs) of
        None \<Rightarrow> st ! j
      | Some (_, xc, y, d, v) \<Rightarrow> place xc y d v (st ! j))"
proof (induction vs rule: rev_induct)
  case Nil
  show ?case by simp
next
  case (snoc e vs)
  obtain i xc y d v where e: "e = (i, xc, y, d, v)" by (cases e)
  show ?case
  proof (cases "i = j")
    case True
    with snoc e show ?thesis by (auto split: option.splits)
  next
    case False
    with snoc e show ?thesis by simp
  qed
qed

lemma fold_applyVisit_other:
  "j \<notin> fst ` set vs \<Longrightarrow> fold applyVisit vs st ! j = st ! j"
proof (induction vs arbitrary: st)
  case Nil
  show ?case by simp
next
  case (Cons e vs)
  obtain i xc y d v where e: "e = (i, xc, y, d, v)" by (cases e)
  with Cons show ?case by auto
qed

lemma fold_applyVisit_idem:
  "fold applyVisit vs (fold applyVisit vs st) = fold applyVisit vs st"
proof (rule nth_equalityI)
  show "length (fold applyVisit vs (fold applyVisit vs st)) = length (fold applyVisit vs st)"
    by simp
next
  fix j assume "j < length (fold applyVisit vs (fold applyVisit vs st))"
  then have j: "j < length st" by simp
  show "fold applyVisit vs (fold applyVisit vs st) ! j = fold applyVisit vs st ! j"
    using j by (auto simp: fold_applyVisit_nth split: option.splits)
qed

lemma find_SomeD: "find P xs = Some x \<Longrightarrow> x \<in> set xs \<and> P x"
  by (induction xs) (auto split: if_splits)

lemma tidy_simps [simp]:
  "length (tidy nds) = length nds"
  "map nid (tidy nds) = map nid nds"
  "map parentId (tidy nds) = map parentId nds"
  "map pos_x (tidy nds) = map pos_x nds"
  "map pos_y (tidy nds) = map pos_y nds"
  by (simp_all add: tidy_def)

lemma tidy_nth [simp]: "i < length nds \<Longrightarrow> tidy nds ! i = (nds ! i)\<lparr>draggable := False\<rparr>"
  by (simp add: tidy_def)

lemma sameStructure_tidy [simp]: "sameStructure (tidy nds) nds"
  by (simp add: sameStructure_def)

lemma childrenMap_tidy [simp]: "childrenMap (tidy nds) = childrenMap nds"
  by (rule childrenMap_cong) simp

lemma tidy_id: "\<forall>n \<in> set nds. \<not> draggable n \<Longrightarrow> tidy nds = nds"
  unfolding tidy_def by (induction nds) auto

lemma applyVisit_draggable [simp]: "map draggable (applyVisit v st) = map draggable st"
  by (cases v) (simp add: map_update map_update_same)

lemma fold_applyVisit_draggable [simp]: "map draggable (fold applyVisit vs st) = map draggable st"
  by (induction vs arbitrary: st) auto

lemma tidy_fold_applyVisit [simp]:
  "tidy (fold applyVisit vs (tidy nds)) = fold applyVisit vs (tidy nds)"
proof (rule tidy_id, rule ballI)
  fix n assume "n \<in> set (fold applyVisit vs (tidy nds))"
  then have "draggable n \<in> set (map draggable (fold applyVisit vs (tidy nds)))"
    by (simp del: fold_applyVisit_draggable)
  then show "\<not> draggable n" by (auto simp: tidy_def)
qed

lemma rootVisits_indices:
  "rootVisits f (childrenMap nds) nds is = Some vs \<Longrightarrow> e \<in> set vs \<Longrightarrow>
   (\<exists>r \<in> set is. \<not> truthy (parentId (nds ! r))
        \<and> e = (r, pos_x (nds ! r) + NODE_WIDTH / 2, pos_y (nds ! r), 0, True))
   \<or> (fst e < length nds \<and> truthy (parentId (nds ! fst e)))"
proof (induction "is" arbitrary: vs)
  case Nil
  then show ?case by simp
next
  case (Cons i "is")
  show ?case
  proof (cases "truthy (parentId (nds ! i))")
    case True
    with Cons show ?thesis by auto
  next
    case False
    with Cons.prems obtain v1 v2 where
      v: "visits f (childrenMap nds) nds i (pos_x (nds ! i) + NODE_WIDTH / 2) (pos_y (nds ! i)) 0 True
          = Some v1"
         "rootVisits f (childrenMap nds) nds is = Some v2" "vs = v1 @ v2"
      by (auto split: option.splits)
    show ?thesis
    proof (cases "e \<in> set v1")
      case True
      from visits_indices[OF v(1) True] False show ?thesis by auto
    next
      case no: False
      with v Cons.prems have "e \<in> set v2" by simp
      from Cons.IH[OF v(2) this] show ?thesis by auto
    qed
  qed
qed

lemma layoutRoots_visits:
  assumes ids: "map nid st = map nid nds" and ps: "map parentId st = map parentId nds"
    and "distinct is" and "\<forall>i \<in> set is. i < length nds"
    and "\<forall>i \<in> set is. \<not> truthy (parentId (nds ! i)) \<longrightarrow>
            pos_x (st ! i) = pos_x (nds ! i) \<and> pos_y (st ! i) = pos_y (nds ! i)"
  shows "layoutRoots f (childrenMap nds) is st
         = map_option (\<lambda>vs. fold applyVisit vs st) (rootVisits f (childrenMap nds) nds is)"
  using assms
proof (induction "is" arbitrary: st)
  case Nil
  show ?case by simp
next
  case (Cons i "is")
  from Cons.prems have i: "i < length nds" by simp
  from Cons.prems(2) i have p: "parentId (st ! i) = parentId (nds ! i)" by (rule map_nth_eq)
  show ?case
  proof (cases "truthy (parentId (nds ! i))")
    case True
    with Cons p show ?thesis by simp
  next
    case False
    with Cons.prems have pos: "pos_x (st ! i) = pos_x (nds ! i)" "pos_y (st ! i) = pos_y (nds ! i)"
      by simp_all
    let ?v = "visits f (childrenMap nds) nds i (pos_x (nds ! i) + NODE_WIDTH / 2) (pos_y (nds ! i)) 0 True"
    have ln: "layoutNode f (childrenMap nds) st i (pos_x (st ! i) + NODE_WIDTH / 2) (pos_y (st ! i)) 0 True
              = map_option (\<lambda>vs. fold applyVisit vs st) ?v"
      unfolding pos by (rule layoutNode_visits[OF Cons.prems(1) i])
    show ?thesis
    proof (cases ?v)
      case None
      with ln False p show ?thesis by simp
    next
      case (Some v1)
      let ?st' = "fold applyVisit v1 st"
      have keep: "pos_x (?st' ! r) = pos_x (nds ! r) \<and> pos_y (?st' ! r) = pos_y (nds ! r)"
        if r: "r \<in> set is" "\<not> truthy (parentId (nds ! r))" for r
      proof -
        from r Cons.prems have ri: "r \<noteq> i" by auto
        have "r \<notin> fst ` set v1"
        proof
          assume "r \<in> fst ` set v1"
          then obtain e where e: "e \<in> set v1" "fst e = r" by auto
          from visits_indices[OF Some e(1)] e(2) ri r(2) show False by auto
        qed
        then have "?st' ! r = st ! r" by (rule fold_applyVisit_other)
        with r Cons.prems(5) show ?thesis by simp
      qed
      have "layoutRoots f (childrenMap nds) is ?st'
            = map_option (\<lambda>vs. fold applyVisit vs ?st') (rootVisits f (childrenMap nds) nds is)"
        by (rule Cons.IH) (use Cons.prems keep in auto)
      with ln Some False p show ?thesis
        by (auto split: option.splits)
    qed
  qed
qed

lemma layoutTree_visits:
  "layoutTree nds = map_option (\<lambda>vs. fold applyVisit vs (tidy nds)) (layoutVisits nds)"
proof -
  have "layoutRoots (Suc (length nds)) (childrenMap (tidy nds)) [0..<length nds] (tidy nds)
        = map_option (\<lambda>vs. fold applyVisit vs (tidy nds))
            (rootVisits (Suc (length nds)) (childrenMap (tidy nds)) (tidy nds) [0..<length nds])"
    by (rule layoutRoots_visits) simp_all
  then show ?thesis by (simp add: layoutTree_def layoutVisits_def tidy_def[symmetric])
qed

lemma layoutTree_sameStructure:
  "layoutTree nds = Some laid \<Longrightarrow> sameStructure laid nds"
  by (auto simp: layoutTree_visits sameStructure_def)

lemma layoutVisits_root_entries:
  assumes "layoutVisits nds = Some vs" "e \<in> set vs" "fst e = r" "\<not> truthy (parentId (nds ! r))"
    "r < length nds"
  shows "e = (r, pos_x (nds ! r) + NODE_WIDTH / 2, pos_y (nds ! r), 0, True)"
proof -
  from assms(1) have
    "rootVisits (Suc (length nds)) (childrenMap (tidy nds)) (tidy nds) [0..<length nds] = Some vs"
    by (simp add: layoutVisits_def)
  from rootVisits_indices[OF this assms(2)] assms(3,4,5) show ?thesis
    by (auto simp: map_nth_eq[of parentId "tidy nds" nds])
qed

lemma layoutTree_keeps_roots:
  assumes "layoutTree nds = Some laid" "r < length nds" "\<not> truthy (parentId (nds ! r))"
  shows "pos_x (laid ! r) = pos_x (nds ! r) \<and> pos_y (laid ! r) = pos_y (nds ! r)"
proof -
  from assms(1) obtain vs where vs: "layoutVisits nds = Some vs"
    and laid: "laid = fold applyVisit vs (tidy nds)"
    by (auto simp: layoutTree_visits)
  show ?thesis
  proof (cases "find (\<lambda>e. fst e = r) (rev vs)")
    case None
    with assms(2) laid show ?thesis by (simp add: fold_applyVisit_nth)
  next
    case (Some e)
    then have "e \<in> set vs" "fst e = r" by (auto dest: find_SomeD)
    from layoutVisits_root_entries[OF vs this assms(3,2)] Some assms(2) laid
    show ?thesis by (simp add: fold_applyVisit_nth place_def)
  qed
qed

lemma visits_ids_cong:
  assumes "map nid a = map nid nds"
  shows "i < length nds \<Longrightarrow>
         visits f (childrenMap nds) a i xc y d v = visits f (childrenMap nds) nds i xc y d v"
proof (induction f arbitrary: i xc y d)
  case 0
  show ?case by simp
next
  case (Suc f)
  let ?cm = "childrenMap nds"
  from assms Suc.prems have n: "nid (a ! i) = nid (nds ! i)" by (rule map_nth_eq)
  let ?cs = "?cm (nid (nds ! i))"
  have cs: "\<forall>c \<in> set ?cs. c < length nds" by (simp add: in_childrenMap)
  have w: "those (map (getSubtreeWidth f ?cm a) ?cs) = those (map (getSubtreeWidth f ?cm nds) ?cs)"
    using getSubtreeWidth_cong[OF assms] cs by (intro map_cong_those) blast
  have vc: "visitChildren (\<lambda>c x. visits f ?cm a c x y' d' v) zs cx
            = visitChildren (\<lambda>c x. visits f ?cm nds c x y' d' v) zs cx"
    if "\<forall>c \<in> set (map fst zs). c < length nds" for zs cx y' d'
    using that
  proof (induction zs arbitrary: cx)
    case Nil
    show ?case by simp
  next
    case (Cons z zs)
    obtain c w where "z = (c, w)" by (cases z)
    with Cons Suc.IH[of c] show ?case by (simp split: option.splits)
  qed
  show ?case
  proof (cases "those (map (getSubtreeWidth f ?cm nds) ?cs)")
    case None
    with w show ?thesis by (simp add: n Let_def)
  next
    case (Some ws)
    then have "length ws = length ?cs" by (metis those_map_Some_iff length_map)
    then have "\<forall>c \<in> set (map fst (zip ?cs ws)). c < length nds" using cs by simp
    from vc[OF this] Some w show ?thesis by (simp add: n Let_def)
  qed
qed

lemma rootVisits_cong:
  assumes "map nid a = map nid nds" "map parentId a = map parentId nds"
    "\<forall>i \<in> set is. i < length nds"
    "\<forall>i \<in> set is. \<not> truthy (parentId (nds ! i)) \<longrightarrow>
        pos_x (a ! i) = pos_x (nds ! i) \<and> pos_y (a ! i) = pos_y (nds ! i)"
  shows "rootVisits f (childrenMap nds) a is = rootVisits f (childrenMap nds) nds is"
  using assms(3,4)
proof (induction "is")
  case Nil
  show ?case by simp
next
  case (Cons i "is")
  then have i: "i < length nds" by simp
  from assms(2) i have p: "parentId (a ! i) = parentId (nds ! i)" by (rule map_nth_eq)
  from Cons show ?case
    by (simp add: p visits_ids_cong[OF assms(1) i] split: option.splits)
qed

lemma layoutVisits_again:
  assumes "layoutTree nds = Some laid"
  shows "layoutVisits laid = layoutVisits nds"
proof -
  from assms have s: "sameStructure laid nds" by (rule layoutTree_sameStructure)
  then have l: "length laid = length nds" by (rule sameStructure_length)
  from s have ids: "map nid (tidy laid) = map nid (tidy nds)"
    and ps: "map parentId (tidy laid) = map parentId (tidy nds)"
    by (simp_all add: sameStructure_def)
  from s have cm: "childrenMap laid = childrenMap nds"
    by (auto simp: sameStructure_def intro: childrenMap_cong)
  have "rootVisits (Suc (length nds)) (childrenMap (tidy nds)) (tidy laid) [0..<length nds]
        = rootVisits (Suc (length nds)) (childrenMap (tidy nds)) (tidy nds) [0..<length nds]"
  proof (rule rootVisits_cong[OF ids ps])
    show "\<forall>i \<in> set [0..<length nds]. i < length (tidy nds)" by simp
    show "\<forall>i\<in>set [0..<length nds]. \<not> truthy (parentId (tidy nds ! i)) \<longrightarrow>
            pos_x (tidy laid ! i) = pos_x (tidy nds ! i) \<and> pos_y (tidy laid ! i) = pos_y (tidy nds ! i)"
      using layoutTree_keeps_roots[OF assms] l by simp
  qed
  then show ?thesis by (simp add: layoutVisits_def l cm)
qed

lemma layoutTree_idem:
  assumes "layoutTree nds = Some laid"
  shows "layoutTree laid = Some laid"
proof -
  from assms obtain vs where vs: "layoutVisits nds = Some vs"
    and laid: "laid = fold applyVisit vs (tidy nds)"
    by (auto simp: layoutTree_visits)
  have "layoutTree laid = Some (fold applyVisit vs (tidy laid))"
    by (simp add: layoutTree_visits layoutVisits_again[OF assms] vs)
  also have "tidy laid = laid" by (simp add: laid)
  also have "fold applyVisit vs laid = laid" by (simp add: laid fold_applyVisit_idem)
  finally show ?thesis .
qed

lemma rootVisits_returns:
  assumes "\<And>i. i \<in> set is \<Longrightarrow> \<exists>vs. visits f cm nds i (pos_x (nds ! i) + NODE_WIDTH / 2) (pos_y (nds ! i)) 0 True = Some vs"
  shows "\<exists>vs. rootVisits f cm nds is = Some vs"
  using assms
proof (induction "is")
  case Nil
  show ?case by simp
next
  case (Cons i "is")
  then obtain v1 v2 where
    "visits f cm nds i (pos_x (nds ! i) + NODE_WIDTH / 2) (pos_y (nds ! i)) 0 True = Some v1"
    "rootVisits f cm nds is = Some v2"
    by (metis list.set_intros(1) list.set_intros(2))
  then show ?case by simp
qed

lemma layoutTree_returns:
  assumes "distinct (map nid nds)" "acyclic nds"
  shows "\<exists>laid. layoutTree nds = Some laid"
proof -
  let ?t = "tidy nds"
  have d: "distinct (map nid ?t)" using assms(1) by simp
  have "\<exists>vs. rootVisits (Suc (length nds)) (childrenMap ?t) ?t [0..<length nds] = Some vs"
  proof (rule rootVisits_returns)
    fix i assume "i \<in> set [0..<length nds]"
    then have i: "i < length ?t" by simp
    then have "nds ! i \<in> set nds" by simp
    with assms(2) obtain dd where "chain nds (nid (nds ! i)) dd"
      using acyclic_chain by blast
    then have c: "chain ?t (nid (?t ! i)) dd"
      using i by (simp add: chain_cong[of ?t nds])
    have "dd \<noteq> 0"
    proof
      assume "dd = 0"
      with c i have "chainLength ?t (Suc 0) (nid (?t ! i)) = Some 0"
        using chain_fuel by blast
      then show False using nodeById_nth[OF d i] by (simp split: option.splits)
    qed
    then have "length ?t < Suc (length nds) + dd" by simp
    from visits_returns[OF d i c this]
    show "\<exists>vs. visits (Suc (length nds)) (childrenMap ?t) ?t i
                 (pos_x (?t ! i) + NODE_WIDTH / 2) (pos_y (?t ! i)) 0 True = Some vs"
      by blast
  qed
  then show ?thesis by (simp add: layoutTree_visits layoutVisits_def)
qed

section \<open>Claims\<close>

subsection \<open>The relink selection state machine\<close>

text \<open>
  A state of the editor in which a node is selected for relinking: the root, one child,
  relink mode switched on and the child clicked.
\<close>

definition awaitingTarget :: editor where
  "awaitingTarget = the (session [PlusClick ''1'', ToggleRelinkMode, NodeClick ''2''])"

text \<open>The node without the copies of the relink state that its \<^verbatim>\<open>data\<close> carries.\<close>

definition stripRelinkData :: "node \<Rightarrow> node" where
  "stripRelinkData n = n\<lparr>data_isRelinkMode := False, data_selectedNodeForRelink := None\<rparr>"

text \<open>
  Claim C8, as stated: from every state the cancel command leads to Idle, with relink
  mode off and no node selected.  It fails in the state above: \<^verbatim>\<open>cancelRelink\<close> only
  clears the selection, and relink mode stays on.
\<close>

theorem cancelRelink_not_idle:
  "session [PlusClick ''1'', ToggleRelinkMode, NodeClick ''2''] = Some awaitingTarget
   \<and> isRelinkMode awaitingTarget
   \<and> selectedNodeForRelink awaitingTarget = Some ''2''
   \<and> isRelinkMode (cancelRelink awaitingTarget)"
  unfolding awaitingTarget_def by code_simp

text \<open>
  Claim C8, amended: from every state the cancel command clears the selection and
  leaves the relink mode flag as it is, so a state that awaits a target becomes one that
  awaits a source; the edges and the counter stay as they are, and so does every node
  but for the copy of the relink state in its \<^verbatim>\<open>data\<close>.
\<close>

theorem cancelRelink_clears_selection:
  "selectedNodeForRelink (cancelRelink st) = None
   \<and> isRelinkMode (cancelRelink st) = isRelinkMode st
   \<and> map stripRelinkData (nodes (cancelRelink st)) = map stripRelinkData (nodes st)
   \<and> edges (cancelRelink st) = edges st
   \<and> nextId (cancelRelink st) = nextId st"
  by (simp add: cancelRelink_def relinkEffect_def stripRelinkData_def)

text \<open>Switching relink mode off is what leads to Idle.\<close>

lemma toggleRelinkMode_idle:
  "isRelinkMode st \<Longrightarrow>
   \<not> isRelinkMode (toggleRelinkMode st) \<and> selectedNodeForRelink (toggleRelinkMode st) = None"
  by (simp add: toggleRelinkMode_def relinkEffect_def)

text \<open>
  Example states: the editor after two children were added to the root and one to the
  first child, and its node set with one more node that has not been laid out yet.
\<close>

definition exampleEditor :: editor where
  "exampleEditor = the (session [PlusClick ''1'', PlusClick ''1'', PlusClick ''2''])"

definition unplacedTree :: "node list" where
  "unplacedTree = nodes exampleEditor @ [newNode False None 5 ''3'']"

subsection \<open>Deleting the root\<close>

text \<open>
  Claim C3: the delete control of the root (the node whose \<^verbatim>\<open>parentId\<close> is null) is
  rejected and leaves the state, and with it the node set, unchanged.  The guard is the
  condition under which the trash icon is rendered.
\<close>

theorem trashClick_root_rejected:
  assumes "treeInv (nodes st)" "n \<in> set (nodes st)" "parentId n = None"
  shows "perform (TrashClick (nid n)) st = Some st"
proof -
  from assms(1) have "distinct (map nid (nodes st))" by (rule treeInv_distinct)
  from nodeById_distinct[OF this assms(2)] have "rendered st (nid n) = Some n"
    by (simp add: rendered_def)
  with assms(3) show ?thesis by (simp add: trashClick_def)
qed

theorem trashClick_root_rejected_witness:
  "treeInv (nodes exampleEditor)
   \<and> perform (TrashClick ''1'') exampleEditor = Some exampleEditor"
proof -
  have a: "treeInv (nodes exampleEditor)" by code_simp
  have b: "hd (nodes exampleEditor) \<in> set (nodes exampleEditor)" by code_simp
  have c: "parentId (hd (nodes exampleEditor)) = None" by code_simp
  have d: "nid (hd (nodes exampleEditor)) = ''1''" by code_simp
  from trashClick_root_rejected[OF a b c] a d show ?thesis by simp
qed

text \<open>
  The handler behind the control has no guard of its own: called with the id of the
  root it removes every node.
\<close>

lemma handleDelete_root_unguarded:
  "map_option nodes (handleDelete ''1'' exampleEditor) = Some []"
  by code_simp

subsection \<open>Idempotence of the layout\<close>

text \<open>
  Claim C9: on every tree the layout pass returns, and a second pass over its result
  returns the same node set, so every node keeps exactly the position of the first pass.
\<close>

theorem layoutTree_idempotent:
  assumes "treeInv nds"
  shows "\<exists>laid. layoutTree nds = Some laid \<and> layoutTree laid = Some laid"
proof -
  from assms have "distinct (map nid nds)" "acyclic nds"
    by (simp_all add: treeInv_distinct treeInv_acyclic)
  then obtain laid where "layoutTree nds = Some laid"
    using layoutTree_returns by blast
  then show ?thesis using layoutTree_idem by blast
qed

theorem layoutTree_idempotent_witness:
  "treeInv unplacedTree
   \<and> (\<exists>laid. layoutTree unplacedTree = Some laid \<and> layoutTree laid = Some laid)"
proof -
  have a: "treeInv unplacedTree" by code_simp
  from layoutTree_idempotent[OF a] a show ?thesis by simp
qed

lemma unplacedTree_moves:
  "map_option (map pos_x) (layoutTree unplacedTree) = Some [300, 195, 405, 195, 405]
   \<and> map pos_x unplacedTree = [300, 195, 405, 195, 0]"
  by code_simp

subsection \<open>Ancestors\<close>

lemma climb_add:
  "climb nds (a + b) i = (case climb nds a i of None \<Rightarrow> None | Some m \<Rightarrow> climb nds b m)"
  by (induction a arbitrary: i) (auto split: option.splits)

lemma climb_one:
  "climb nds (Suc 0) m = Some i \<longleftrightarrow> (\<exists>c. nodeById nds m = Some c \<and> parentId c = Some i)"
  by (auto split: option.splits)

lemma climb_Suc_top:
  "climb nds (Suc k) j = Some i \<longleftrightarrow>
   (\<exists>c. climb nds k j = Some (nid c) \<and> nodeById nds (nid c) = Some c \<and> parentId c = Some i)"
proof -
  have "climb nds (Suc k) j = climb nds (k + Suc 0) j" by simp
  also have "\<dots> = (case climb nds k j of None \<Rightarrow> None | Some m \<Rightarrow> climb nds (Suc 0) m)"
    by (rule climb_add)
  finally have top: "climb nds (Suc k) j = Some i
                \<longleftrightarrow> (\<exists>m. climb nds k j = Some m \<and> climb nds (Suc 0) m = Some i)"
    by (auto split: option.splits)
  show ?thesis
  proof
    assume "climb nds (Suc k) j = Some i"
    with top obtain m where m: "climb nds k j = Some m" "climb nds (Suc 0) m = Some i" by blast
    from m(2) obtain c where c: "nodeById nds m = Some c" "parentId c = Some i"
      unfolding climb_one by blast
    from c(1) have "nid c = m" by (simp add: nodeById_SomeD)
    with m(1) c show "\<exists>c. climb nds k j = Some (nid c) \<and> nodeById nds (nid c) = Some c
                        \<and> parentId c = Some i" by blast
  next
    assume "\<exists>c. climb nds k j = Some (nid c) \<and> nodeById nds (nid c) = Some c \<and> parentId c = Some i"
    then obtain c where c: "climb nds k j = Some (nid c)" "nodeById nds (nid c) = Some c"
      "parentId c = Some i" by blast
    from c(2,3) have "climb nds (Suc 0) (nid c) = Some i" unfolding climb_one by blast
    with c(1) top show "climb nds (Suc k) j = Some i" by blast
  qed
qed

lemma ancestorOrSelf_iff: "ancestorOrSelf nds a b \<longleftrightarrow> a = b \<or> ancestor nds a b"
proof
  assume "ancestorOrSelf nds a b"
  then obtain k where k: "climb nds k b = Some a" by (auto simp: ancestorOrSelf_def)
  show "a = b \<or> ancestor nds a b"
  proof (cases k)
    case 0
    with k show ?thesis by simp
  next
    case (Suc k')
    with k show ?thesis unfolding ancestor_def by blast
  qed
next
  assume "a = b \<or> ancestor nds a b"
  then show "ancestorOrSelf nds a b"
  proof
    assume "a = b"
    then have "climb nds 0 b = Some a" by simp
    then show ?thesis unfolding ancestorOrSelf_def by blast
  next
    assume "ancestor nds a b"
    then show ?thesis unfolding ancestor_def ancestorOrSelf_def by blast
  qed
qed

lemma ancestor_children:
  assumes "distinct (map nid nds)"
  shows "ancestor nds i j \<longleftrightarrow>
         (\<exists>c \<in> set nds. parentId c = Some i \<and> (j = nid c \<or> ancestor nds (nid c) j))"
proof
  assume "ancestor nds i j"
  then obtain k where "climb nds (Suc k) j = Some i" by (auto simp: ancestor_def)
  then obtain c where c: "climb nds k j = Some (nid c)" "nodeById nds (nid c) = Some c"
    "parentId c = Some i" unfolding climb_Suc_top by blast
  then have cin: "c \<in> set nds" by (auto dest: nodeById_SomeD)
  have "j = nid c \<or> ancestor nds (nid c) j"
  proof (cases k)
    case 0
    with c show ?thesis by simp
  next
    case (Suc k')
    with c show ?thesis unfolding ancestor_def by blast
  qed
  with c cin show "\<exists>c \<in> set nds. parentId c = Some i \<and> (j = nid c \<or> ancestor nds (nid c) j)"
    by blast
next
  assume "\<exists>c \<in> set nds. parentId c = Some i \<and> (j = nid c \<or> ancestor nds (nid c) j)"
  then obtain c where c: "c \<in> set nds" "parentId c = Some i"
    "j = nid c \<or> ancestor nds (nid c) j" by blast
  from nodeById_distinct[OF assms c(1)] have nb: "nodeById nds (nid c) = Some c" .
  from c(3) obtain k where "climb nds k j = Some (nid c)"
    unfolding ancestor_def by (metis climb.simps(1))
  with nb c(2) have "climb nds (Suc k) j = Some i" unfolding climb_Suc_top by blast
  then show "ancestor nds i j" unfolding ancestor_def by blast
qed

subsection \<open>Collecting descendants\<close>

lemma collectLoop_returns:
  "(\<And>n. n \<in> set ns \<Longrightarrow> parentId n = Some i \<Longrightarrow> recur (nid n) \<noteq> None) \<Longrightarrow>
   \<exists>r. collectLoop recur i ns acc = Some r"
proof (induction ns arbitrary: acc)
  case Nil
  show ?case by simp
next
  case (Cons n ns)
  have rest: "\<exists>r. collectLoop recur i ns acc' = Some r" for acc'
    by (rule Cons.IH) (use Cons.prems in auto)
  show ?case
  proof (cases "parentId n = Some i")
    case True
    with Cons.prems[of n] obtain ds where "recur (nid n) = Some ds" by auto
    with True rest show ?thesis by simp
  next
    case False
    with rest show ?thesis by simp
  qed
qed

lemma collectLoop_SomeD:
  "collectLoop recur i ns acc = Some r \<Longrightarrow> n \<in> set ns \<Longrightarrow> parentId n = Some i \<Longrightarrow>
   recur (nid n) \<noteq> None"
  by (induction ns arbitrary: acc) (auto split: option.splits if_splits)

lemma collectLoop_set:
  "collectLoop recur i ns acc = Some r \<Longrightarrow>
   set r = set acc \<union> (\<Union>n \<in> {n \<in> set ns. parentId n = Some i}.
                          insert (nid n) (set (the (recur (nid n)))))"
proof (induction ns arbitrary: acc)
  case Nil
  then show ?case by simp
next
  case (Cons n ns)
  show ?case
  proof (cases "parentId n = Some i")
    case True
    with Cons.prems obtain ds where ds: "recur (nid n) = Some ds"
      and r: "collectLoop recur i ns ((acc @ [nid n]) @ ds) = Some r"
      by (auto split: option.splits)
    from Cons.IH[OF r] ds True show ?thesis by auto
  next
    case False
    with Cons show ?thesis by auto
  qed
qed

lemma getDescendants_set:
  assumes "distinct (map nid nds)"
  shows "getDescendants f nds i = Some ds \<Longrightarrow> set ds = {j. ancestor nds i j}"
proof (induction f arbitrary: i ds)
  case 0
  then show ?case by simp
next
  case (Suc f)
  then have c: "collectLoop (getDescendants f nds) i nds [] = Some ds" by simp
  have sub: "set (the (getDescendants f nds (nid n))) = {j. ancestor nds (nid n) j}"
    if "n \<in> set nds" "parentId n = Some i" for n
  proof -
    from collectLoop_SomeD[OF c that] obtain ds' where
      "getDescendants f nds (nid n) = Some ds'" by blast
    with Suc.IH[OF this] show ?thesis by simp
  qed
  from collectLoop_set[OF c]
  have "set ds = (\<Union>n \<in> {n \<in> set nds. parentId n = Some i}.
                   insert (nid n) (set (the (getDescendants f nds (nid n)))))"
    by simp
  also have "\<dots> = (\<Union>n \<in> {n \<in> set nds. parentId n = Some i}.
                   insert (nid n) {j. ancestor nds (nid n) j})"
    by (rule SUP_cong) (auto simp: sub)
  also have "\<dots> = {j. ancestor nds i j}"
    unfolding ancestor_children[OF assms, of i] by auto
  finally show ?case .
qed

lemma getDescendants_returns:
  assumes dist: "distinct (map nid nds)"
  shows "chain nds i d \<Longrightarrow> length nds < f + d \<Longrightarrow> \<exists>ds. getDescendants f nds i = Some ds"
proof (induction f arbitrary: i d)
  case 0
  with chain_bound[of nds i d] show ?case by simp
next
  case (Suc f)
  have "getDescendants f nds (nid n) \<noteq> None" if n: "n \<in> set nds" "parentId n = Some i" for n
  proof -
    have "chain nds (nid n) (Suc d)" using chain_child[OF dist n Suc.prems(1)] .
    from Suc.IH[OF this] Suc.prems(2) show ?thesis by auto
  qed
  then show ?case using collectLoop_returns[of nds i "getDescendants f nds" "[]"] by simp
qed

lemma findLoop_collectLoop:
  assumes "\<And>j acc. recurF j acc = map_option (\<lambda>ds. acc \<union> set ds) (recurG j)"
  shows "findLoop recurF i ns (A \<union> set pre)
         = map_option (\<lambda>r. A \<union> set r) (collectLoop recurG i ns pre)"
proof (induction ns arbitrary: pre)
  case Nil
  show ?case by simp
next
  case (Cons n ns)
  show ?case
  proof (cases "parentId n = Some i")
    case False
    with Cons show ?thesis by simp
  next
    case True
    show ?thesis
    proof (cases "recurG (nid n)")
      case None
      with True assms show ?thesis by simp
    next
      case (Some ds)
      have "insert (nid n) (A \<union> set pre) \<union> set ds = A \<union> set ((pre @ [nid n]) @ ds)" by auto
      with Cons.IH[of "(pre @ [nid n]) @ ds"] True Some assms show ?thesis by simp
    qed
  qed
qed

lemma findDescendants_getDescendants:
  "findDescendants f nds i acc = map_option (\<lambda>ds. acc \<union> set ds) (getDescendants f nds i)"
proof (induction f arbitrary: i acc)
  case 0
  show ?case by simp
next
  case (Suc f)
  have "findLoop (findDescendants f nds) i nds (acc \<union> set [])
        = map_option (\<lambda>r. acc \<union> set r) (collectLoop (getDescendants f nds) i nds [])"
    by (rule findLoop_collectLoop) (rule Suc.IH)
  then show ?case by simp
qed

text \<open>
  The node without the fields that the layout pass writes: the position, the depth
  colour, the visibility and the \<^verbatim>\<open>draggable\<close> flag.
\<close>

definition stripLayout :: "node \<Rightarrow> node" where
  "stripLayout n =
     n\<lparr>pos_x := 0, pos_y := 0, background := None, display := None, visible := None,
       draggable := False\<rparr>"

subsection \<open>What the layout leaves alone\<close>

lemma stripLayout_place [simp]: "stripLayout (place xc y d v n) = stripLayout n"
  by (simp add: stripLayout_def place_def)

lemma applyVisit_stripLayout [simp]: "map stripLayout (applyVisit v st) = map stripLayout st"
  by (cases v) (simp add: map_update map_update_same)

lemma fold_applyVisit_stripLayout [simp]:
  "map stripLayout (fold applyVisit vs st) = map stripLayout st"
  by (induction vs arbitrary: st) auto

lemma tidy_stripLayout [simp]: "map stripLayout (tidy nds) = map stripLayout nds"
  by (simp add: tidy_def stripLayout_def)

lemma layoutTree_stripLayout:
  "layoutTree nds = Some laid \<Longrightarrow> map stripLayout laid = map stripLayout nds"
  by (auto simp: layoutTree_visits)

subsection \<open>The edge deriver returns\<close>

lemma computeEdges_returns:
  assumes "distinct (map nid nds)" "acyclic nds"
  shows "\<exists>es. computeEdges nds = Some es"
proof -
  from assms(2) obtain d where "chain nds ''10'' d" using chain_exists_of_acyclic by blast
  from getDescendants_returns[OF assms(1) this, of "Suc (length nds)"]
  obtain ds where "getDescendants (Suc (length nds)) nds ''10'' = Some ds" by auto
  then show ?thesis
    by (simp add: computeEdges_def findDescendants_getDescendants del: findDescendants.simps getDescendants.simps)
qed

lemma computeEdges_eq:
  assumes "distinct (map nid nds)" "computeEdges nds = Some es"
  shows "es = concat (map (edgeOf {j. ancestor nds ''10'' j}) nds)"
proof -
  from assms(2) obtain ds where ds: "getDescendants (Suc (length nds)) nds ''10'' = Some ds"
    and es: "es = concat (map (edgeOf (set ds)) nds)"
    by (auto simp: computeEdges_def findDescendants_getDescendants
             simp del: findDescendants.simps getDescendants.simps split: option.splits)
  from getDescendants_set[OF assms(1) ds] es show ?thesis by simp
qed

lemma edgeOf_None: "parentId n = None \<Longrightarrow> edgeOf D n = []"
  by (simp add: edgeOf_def)

lemma edgeOf_Some:
  "parentId n = Some p \<Longrightarrow> p \<noteq> [] \<Longrightarrow>
   \<exists>e. edgeOf D n = [e] \<and> source e = p \<and> target e = nid n
       \<and> eid e = ''e-'' @ p @ ''-'' @ nid n
       \<and> (animated e \<longleftrightarrow> nid n = ''10'' \<or> nid n \<in> D)"
  by (simp add: edgeOf_def Let_def)

lemma edgeOf_ends:
  "\<forall>n \<in> set ns. \<forall>p. parentId n = Some p \<longrightarrow> p \<noteq> [] \<Longrightarrow>
   map (\<lambda>e. (source e, target e)) (concat (map (edgeOf D) ns))
   = map (\<lambda>n. (the (parentId n), nid n)) (filter (\<lambda>n. parentId n \<noteq> None) ns)"
proof (induction ns)
  case Nil
  show ?case by simp
next
  case (Cons n ns)
  then have IH: "map (\<lambda>e. (source e, target e)) (concat (map (edgeOf D) ns))
                 = map (\<lambda>n. (the (parentId n), nid n)) (filter (\<lambda>n. parentId n \<noteq> None) ns)"
    by simp
  show ?case
  proof (cases "parentId n")
    case None
    with IH show ?thesis by (simp add: edgeOf_None)
  next
    case (Some p)
    with Cons.prems have "p \<noteq> []" by simp
    from edgeOf_Some[OF Some this, of D] obtain e where
      "edgeOf D n = [e]" "source e = p" "target e = nid n" by blast
    with IH Some show ?thesis by simp
  qed
qed

lemma edgeOf_props:
  assumes "e \<in> set (concat (map (edgeOf D) ns))"
  shows "eid e = ''e-'' @ source e @ ''-'' @ target e
         \<and> (animated e \<longleftrightarrow> target e = ''10'' \<or> target e \<in> D)"
proof -
  from assms obtain n where n: "e \<in> set (edgeOf D n)" by auto
  show ?thesis
  proof (cases "parentId n")
    case None
    with n show ?thesis by (simp add: edgeOf_None)
  next
    case (Some p)
    show ?thesis
    proof (cases "p = []")
      case True
      with Some n show ?thesis by (simp add: edgeOf_def)
    next
      case False
      from edgeOf_Some[OF Some False, of D] n show ?thesis by auto
    qed
  qed
qed

lemma wellFormed_parent_nonempty:
  "wellFormed nds \<Longrightarrow> n \<in> set nds \<Longrightarrow> parentId n = Some p \<Longrightarrow> p \<noteq> []"
  unfolding wellFormed_def treeInv_def by (auto split: option.splits)

subsection \<open>Removing nodes\<close>

lemma nodeById_filter:
  "distinct (map nid nds) \<Longrightarrow>
   nodeById (filter P nds) i
   = (case nodeById nds i of None \<Rightarrow> None | Some n \<Rightarrow> if P n then Some n else None)"
proof (induction nds)
  case Nil
  show ?case by (simp add: nodeById_def)
next
  case (Cons x xs)
  then have IH: "nodeById (filter P xs) i
                 = (case nodeById xs i of None \<Rightarrow> None | Some n \<Rightarrow> if P n then Some n else None)"
    by simp
  show ?case
  proof (cases "nid x = i")
    case True
    with Cons.prems have "i \<notin> nid ` set xs" by auto
    then have "nodeById xs i = None" by (simp add: nodeById_None_iff)
    with IH True show ?thesis by (simp add: nodeById_def)
  next
    case False
    with IH show ?thesis by (simp add: nodeById_def)
  qed
qed

lemma chain_filter:
  assumes "distinct (map nid nds)"
  shows "chainLength nds f i = Some d \<Longrightarrow> \<exists>d'. chain (filter P nds) i d'"
proof (induction f arbitrary: i d)
  case 0
  then show ?case by simp
next
  case (Suc f)
  show ?case
  proof (cases "nodeById (filter P nds) i")
    case None
    then have "i \<notin> nid ` set (filter P nds)" by (simp add: nodeById_None_iff)
    then show ?thesis using chain_missing by blast
  next
    case (Some n)
    then have n: "nodeById nds i = Some n"
      by (auto simp: nodeById_filter[OF assms] split: option.splits if_splits)
    show ?thesis
    proof (cases "parentId n")
      case None
      with Some show ?thesis using chain_root by blast
    next
      case (Some p)
      with n Suc.prems obtain d0 where "chainLength nds f p = Some d0" by auto
      from Suc.IH[OF this] obtain d' where "chain (filter P nds) p d'" by blast
      with \<open>nodeById (filter P nds) i = Some n\<close> Some show ?thesis using chain_step by blast
    qed
  qed
qed

lemma acyclic_filter:
  assumes "distinct (map nid nds)" "acyclic nds"
  shows "acyclic (filter P nds)"
proof (rule acyclicI)
  fix n assume "n \<in> set (filter P nds)"
  then have "n \<in> set nds" by simp
  with assms(2) obtain d where "chain nds (nid n) d" using acyclic_chain by blast
  then show "\<exists>d. chain (filter P nds) (nid n) d"
    unfolding chain_def[of nds] using chain_filter[OF assms(1)] by blast
qed

subsection \<open>Cascade delete\<close>

lemma handleDelete_nodes:
  assumes "distinct (map nid (nodes st))" "acyclic (nodes st)"
  shows "\<exists>st'. handleDelete i st = Some st'
           \<and> layoutTree (filter (\<lambda>m. \<not> ancestorOrSelf (nodes st) i (nid m)) (nodes st))
             = Some (nodes st')
           \<and> computeEdges (nodes st') = Some (edges st')
           \<and> isRelinkMode st' = isRelinkMode st
           \<and> selectedNodeForRelink st' = selectedNodeForRelink st
           \<and> nextId st' = nextId st"
proof -
  let ?nds = "nodes st"
  from assms(2) obtain d where "chain ?nds i d" using chain_exists_of_acyclic by blast
  from getDescendants_returns[OF assms(1) this, of "Suc (length ?nds)"]
  obtain ds where ds: "getDescendants (Suc (length ?nds)) ?nds i = Some ds" by auto
  from getDescendants_set[OF assms(1) ds] have set: "set ds = {j. ancestor ?nds i j}" .
  let ?rem = "filter (\<lambda>m. \<not> ancestorOrSelf ?nds i (nid m)) ?nds"
  have rem: "filter (\<lambda>n. nid n \<noteq> i \<and> nid n \<notin> set ds) ?nds = ?rem"
    by (rule filter_cong) (auto simp: set ancestorOrSelf_iff)
  have dr: "distinct (map nid ?rem)" using assms(1) by (simp add: distinct_map_filter)
  have ar: "acyclic ?rem" using assms by (rule acyclic_filter)
  from layoutTree_returns[OF dr ar] obtain laid where laid: "layoutTree ?rem = Some laid" by blast
  then have s: "sameStructure laid ?rem" by (rule layoutTree_sameStructure)
  then have "distinct (map nid laid)" "acyclic laid"
    using dr ar by (simp_all add: sameStructure_def acyclic_cong[OF s])
  from computeEdges_returns[OF this] obtain es where es: "computeEdges laid = Some es" by blast
  have "handleDelete i st = Some (st\<lparr>nodes := laid, edges := es\<rparr>)"
    using ds rem laid es
    by (simp add: handleDelete_def del: getDescendants.simps)
  with laid es show ?thesis by simp
qed

text \<open>A tree that contains the anchor: nine children of the root and a child of node 10.\<close>

definition anchorTree :: "node list" where
  "anchorTree = nodes (the (session (replicate 9 (PlusClick ''1'') @ [PlusClick ''10''])))"

definition afterDelete :: editor where
  "afterDelete = the (handleDelete ''2'' exampleEditor)"

subsection \<open>Connectors and their highlight\<close>

text \<open>
  Claim C7: on every well-formed tree the edge deriver returns one connector per node
  with a parent, in array order, from the parent to the node and with the id
  \<^verbatim>\<open>e-<parent>-<node>\<close>; a connector is animated (highlighted) exactly when its target is
  the node \<^verbatim>\<open>'10'\<close> or a transitive descendant of it.
\<close>

theorem computeEdges_correct:
  assumes "wellFormed nds"
  shows "\<exists>es. computeEdges nds = Some es
           \<and> map (\<lambda>e. (source e, target e)) es
             = map (\<lambda>n. (the (parentId n), nid n)) (filter (\<lambda>n. parentId n \<noteq> None) nds)
           \<and> (\<forall>e \<in> set es.
                 eid e = ''e-'' @ source e @ ''-'' @ target e
                 \<and> (animated e \<longleftrightarrow> target e = ''10'' \<or> ancestor nds ''10'' (target e)))"
proof -
  from assms have t: "treeInv nds" by (simp add: wellFormed_def)
  then have d: "distinct (map nid nds)" and a: "acyclic nds"
    by (simp_all add: treeInv_distinct treeInv_acyclic)
  from computeEdges_returns[OF d a] obtain es where es: "computeEdges nds = Some es" by blast
  let ?D = "{j. ancestor nds ''10'' j}"
  from computeEdges_eq[OF d es] have eq: "es = concat (map (edgeOf ?D) nds)" .
  have "\<forall>n \<in> set nds. \<forall>p. parentId n = Some p \<longrightarrow> p \<noteq> []"
    using wellFormed_parent_nonempty[OF assms] by blast
  from edgeOf_ends[OF this, of ?D] eq
  have ends: "map (\<lambda>e. (source e, target e)) es
              = map (\<lambda>n. (the (parentId n), nid n)) (filter (\<lambda>n. parentId n \<noteq> None) nds)"
    by simp
  have "\<forall>e \<in> set es.
          eid e = ''e-'' @ source e @ ''-'' @ target e
          \<and> (animated e \<longleftrightarrow> target e = ''10'' \<or> ancestor nds ''10'' (target e))"
    using edgeOf_props[of _ ?D nds] eq by simp
  with es ends show ?thesis by blast
qed

theorem computeEdges_correct_witness:
  "wellFormed anchorTree
   \<and> (\<exists>es. computeEdges anchorTree = Some es
           \<and> map (\<lambda>e. (source e, target e)) es
             = map (\<lambda>n. (the (parentId n), nid n)) (filter (\<lambda>n. parentId n \<noteq> None) anchorTree)
           \<and> (\<forall>e \<in> set es.
                 eid e = ''e-'' @ source e @ ''-'' @ target e
                 \<and> (animated e \<longleftrightarrow> target e = ''10'' \<or> ancestor anchorTree ''10'' (target e))))"
proof -
  have a: "wellFormed anchorTree" by code_simp
  from computeEdges_correct[OF a] a show ?thesis by blast
qed

lemma anchorTree_highlight:
  "map_option (map (\<lambda>e. (eid e, animated e))) (computeEdges anchorTree)
   = Some [(''e-1-2'', False), (''e-1-3'', False), (''e-1-4'', False), (''e-1-5'', False),
           (''e-1-6'', False), (''e-1-7'', False), (''e-1-8'', False), (''e-1-9'', False),
           (''e-1-10'', True), (''e-10-11'', True)]"
  by code_simp

subsection \<open>Cascade delete\<close>

text \<open>
  Claim C6, as stated: deleting a node removes it and its descendants and mutates no
  other node.  The handler lays the remaining nodes out again, and that moves them:
  deleting node 2 of the example moves its sibling, node 3, from x = 405 to x = 300.
\<close>

theorem handleDelete_moves_sibling:
  "handleDelete ''2'' exampleEditor = Some afterDelete
   \<and> map nid (nodes exampleEditor) = [''1'', ''2'', ''3'', ''4'']
   \<and> map pos_x (nodes exampleEditor) = [300, 195, 405, 195]
   \<and> map nid (nodes afterDelete) = [''1'', ''3'']
   \<and> map pos_x (nodes afterDelete) = [300, 300]"
  by code_simp

text \<open>
  Claim C6, amended: on every tree, deleting a node \<open>n\<close> returns; the nodes that remain
  are exactly those for which \<open>n\<close> is neither the node itself nor a transitive ancestor,
  in their order; they are laid out again, and apart from the fields the layout writes
  none of them is changed.
\<close>

theorem handleDelete_removes_subtree:
  assumes "treeInv (nodes st)" "n \<in> set (nodes st)"
  shows "\<exists>st'. handleDelete (nid n) st = Some st'
           \<and> layoutTree (filter (\<lambda>m. \<not> ancestorOrSelf (nodes st) (nid n) (nid m)) (nodes st))
             = Some (nodes st')
           \<and> map stripLayout (nodes st')
             = map stripLayout
                 (filter (\<lambda>m. \<not> ancestorOrSelf (nodes st) (nid n) (nid m)) (nodes st))"
proof -
  from assms(1) have "distinct (map nid (nodes st))" "acyclic (nodes st)"
    by (simp_all add: treeInv_distinct treeInv_acyclic)
  from handleDelete_nodes[OF this, of "nid n"] obtain st' where
    st': "handleDelete (nid n) st = Some st'"
    "layoutTree (filter (\<lambda>m. \<not> ancestorOrSelf (nodes st) (nid n) (nid m)) (nodes st))
     = Some (nodes st')"
    by blast
  from layoutTree_stripLayout[OF st'(2)] st' show ?thesis by blast
qed

theorem handleDelete_removes_subtree_witness:
  "treeInv (nodes exampleEditor) \<and> nodes exampleEditor ! 1 \<in> set (nodes exampleEditor)
   \<and> (\<exists>st'. handleDelete (nid (nodes exampleEditor ! 1)) exampleEditor = Some st'
           \<and> layoutTree (filter (\<lambda>m. \<not> ancestorOrSelf (nodes exampleEditor)
                                          (nid (nodes exampleEditor ! 1)) (nid m))
                           (nodes exampleEditor))
             = Some (nodes st')
           \<and> map stripLayout (nodes st')
             = map stripLayout
                 (filter (\<lambda>m. \<not> ancestorOrSelf (nodes exampleEditor)
                                   (nid (nodes exampleEditor ! 1)) (nid m))
                   (nodes exampleEditor)))"
proof -
  have a: "treeInv (nodes exampleEditor)" by code_simp
  have b: "nodes exampleEditor ! 1 \<in> set (nodes exampleEditor)" by code_simp
  from handleDelete_removes_subtree[OF a b] a b show ?thesis by blast
qed

subsection \<open>The parents ref and the cycle check\<close>

lemma nodeById_snoc:
  "nodeById (xs @ [x]) i
   = (case nodeById xs i of Some n \<Rightarrow> Some n | None \<Rightarrow> if nid x = i then Some x else None)"
  unfolding nodeById_def by (induction xs) auto

lemma nodeParents_snoc:
  "nodeParents (xs @ [x])
   = (case parentId x of
        None \<Rightarrow> nodeParents xs
      | Some p \<Rightarrow> if p \<noteq> [] then (nodeParents xs)(nid x \<mapsto> p) else nodeParents xs)"
  by (simp add: nodeParents_def split: option.splits)

lemma nodeParents_lookup:
  "distinct (map nid nds) \<Longrightarrow>
   nodeParents nds i
   = (case nodeById nds i of
        None \<Rightarrow> None
      | Some n \<Rightarrow> (case parentId n of None \<Rightarrow> None | Some p \<Rightarrow> if p \<noteq> [] then Some p else None))"
proof (induction nds rule: rev_induct)
  case Nil
  show ?case by (simp add: nodeParents_def nodeById_def)
next
  case (snoc x xs)
  then have IH: "nodeParents xs i
     = (case nodeById xs i of
          None \<Rightarrow> None
        | Some n \<Rightarrow> (case parentId n of None \<Rightarrow> None | Some p \<Rightarrow> if p \<noteq> [] then Some p else None))"
    by simp
  show ?case
  proof (cases "nid x = i")
    case True
    with snoc.prems have "i \<notin> nid ` set xs" by auto
    then have "nodeById xs i = None" by (simp add: nodeById_None_iff)
    with IH True show ?thesis
      by (simp add: nodeParents_snoc nodeById_snoc split: option.splits)
  next
    case False
    with IH show ?thesis
      by (simp add: nodeParents_snoc nodeById_snoc split: option.splits)
  qed
qed

lemma climb_chain:
  "climb nds k b = Some a \<Longrightarrow> chain nds a d \<Longrightarrow> chain nds b (d + k)"
proof (induction k arbitrary: b)
  case 0
  then show ?case by simp
next
  case (Suc k)
  then obtain n p where n: "nodeById nds b = Some n" "parentId n = Some p" "climb nds k p = Some a"
    by (auto split: option.splits)
  from Suc.IH[OF n(3) Suc.prems(2)] have "chain nds p (d + k)" .
  from chain_step[OF n(1,2) this] show ?case by simp
qed

lemma isNodeDescendant_ancestor:
  assumes "wellFormed nds"
  shows "climb nds k b = Some a \<Longrightarrow> k < f \<Longrightarrow>
         isNodeDescendant f (nodeParents nds) b a = Some True"
proof (induction k arbitrary: b f)
  case 0
  then obtain f' where "f = Suc f'" by (cases f) auto
  with 0 show ?case by simp
next
  case (Suc k)
  then obtain f' where f: "f = Suc f'" "k < f'" by (cases f) auto
  from Suc.prems obtain n p where
    n: "nodeById nds b = Some n" "parentId n = Some p" "climb nds k p = Some a"
    by (auto split: option.splits)
  from n(1) have "n \<in> set nds" by (simp add: nodeById_SomeD)
  from wellFormed_parent_nonempty[OF assms this n(2)] have p: "p \<noteq> []" .
  from assms have "distinct (map nid nds)" by (simp add: wellFormed_def treeInv_distinct)
  from nodeParents_lookup[OF this, of b] n p have "nodeParents nds b = Some p" by simp
  with Suc.IH[OF n(3) f(2)] p f show ?case by simp
qed

lemma ancestorOrSelf_bound:
  assumes "acyclic nds" "climb nds k b = Some a"
  shows "k \<le> length nds"
proof -
  from assms(1) obtain d where "chain nds a d" using chain_exists_of_acyclic by blast
  from climb_chain[OF assms(2) this] have "chain nds b (d + k)" .
  from chain_bound[OF this] show ?thesis by simp
qed

subsection \<open>Relink cycle safety\<close>

text \<open>
  Claim C2: in a well-formed tree, let \<open>a\<close> be the node selected for relinking, as the
  \<^verbatim>\<open>data\<close> of node \<open>b\<close> records it, and let \<open>b\<close> be \<open>a\<close> itself or a transitive descendant of
  \<open>a\<close>.  Then the click on \<open>b\<close> that would make \<open>b\<close> the new parent of \<open>a\<close> is rejected: the
  state of the editor, and with it every \<^verbatim>\<open>parentId\<close>, stays as it is.
\<close>

theorem relink_to_descendant_rejected:
  assumes "wellFormed (nodes st)" "a \<in> set (nodes st)" "b \<in> set (nodes st)"
    and "data_selectedNodeForRelink b = Some (nid a)"
    and "ancestorOrSelf (nodes st) (nid a) (nid b)"
  shows "perform (NodeClick (nid b)) st = Some st"
proof -
  let ?nds = "nodes st"
  from assms(1) have t: "treeInv ?nds" and ne: "[] \<notin> set (map nid ?nds)"
    by (simp_all add: wellFormed_def)
  from t have d: "distinct (map nid ?nds)" and ac: "acyclic ?nds"
    by (simp_all add: treeInv_distinct treeInv_acyclic)
  from nodeById_distinct[OF d assms(3)] have r: "rendered st (nid b) = Some b"
    by (simp add: rendered_def)
  from ne assms(2) have a: "nid a \<noteq> []" by (metis image_eqI list.set_map)
  from assms(5) obtain k where k: "climb ?nds k (nid b) = Some (nid a)"
    by (auto simp: ancestorOrSelf_def)
  from ancestorOrSelf_bound[OF ac k] have "k < Suc (length ?nds)" by simp
  from isNodeDescendant_ancestor[OF assms(1) k this]
  have desc: "isNodeDescendant (Suc (length ?nds)) (nodeParents ?nds) (nid b) (nid a) = Some True" .
  have "canBeRelinkTarget ?nds b = Some False"
  proof (cases "isValidRelinkTarget b")
    case False
    then show ?thesis by (simp add: canBeRelinkTarget_def)
  next
    case True
    then have "data_isRelinkMode b" by (simp add: isValidRelinkTarget_def)
    with assms(4) a desc have "isDescendant ?nds b = Some True"
      by (simp add: isDescendant_def del: isNodeDescendant.simps)
    with True show ?thesis by (simp add: canBeRelinkTarget_def)
  qed
  with assms(4) a have "handleNodeClick b st = Some st"
    by (simp add: handleNodeClick_def)
  with r show ?thesis by simp
qed


text \<open>
  The editor of the example with relink mode on and node 2 selected.
\<close>

definition relinkPending :: editor where
  "relinkPending =
     the (session [PlusClick ''1'', PlusClick ''1'', PlusClick ''2'', ToggleRelinkMode,
                   NodeClick ''2''])"

theorem relink_to_descendant_rejected_witness:
  "wellFormed (nodes relinkPending)
   \<and> data_selectedNodeForRelink (nodes relinkPending ! 3) = Some ''2''
   \<and> nid (nodes relinkPending ! 3) = ''4''
   \<and> ancestorOrSelf (nodes relinkPending) ''2'' ''4''
   \<and> perform (NodeClick ''4'') relinkPending = Some relinkPending"
proof -
  have w: "wellFormed (nodes relinkPending)" by code_simp
  have a: "nodes relinkPending ! 1 \<in> set (nodes relinkPending)" by code_simp
  have b: "nodes relinkPending ! 3 \<in> set (nodes relinkPending)" by code_simp
  have ia: "nid (nodes relinkPending ! 1) = ''2''" by code_simp
  have ib: "nid (nodes relinkPending ! 3) = ''4''" by code_simp
  have s: "data_selectedNodeForRelink (nodes relinkPending ! 3) = Some ''2''" by code_simp
  have "climb (nodes relinkPending) 1 ''4'' = Some ''2''" by code_simp
  then have d: "ancestorOrSelf (nodes relinkPending) ''2'' ''4''"
    unfolding ancestorOrSelf_def by blast
  from relink_to_descendant_rejected[OF w a b] s d ia ib
  have "perform (NodeClick ''4'') relinkPending = Some relinkPending" by simp
  with w s ib d show ?thesis by simp
qed

text \<open>
  The guard is in the click handler.  \<^verbatim>\<open>handleRelink\<close> itself rewrites the \<^verbatim>\<open>parentId\<close>
  without any check: called directly with a descendant as the new parent it returns a
  node set that is no longer a tree.
\<close>

lemma handleRelink_unguarded:
  "map_option (\<lambda>st'. treeInv (nodes st')) (handleRelink ''2'' ''4'' exampleEditor) = Some False"
  by code_simp

text \<open>
  The subtree width of a node as the layout computes it, called on an empty stack.
\<close>

definition subtreeWidth :: "node list \<Rightarrow> nat \<Rightarrow> rat option" where
  "subtreeWidth nds i = getSubtreeWidth (Suc (length nds)) (childrenMap nds) nds i"

definition subtreeWidth_measured :: "node list \<Rightarrow> nat \<Rightarrow> rat option" where
  "subtreeWidth_measured nds i =
     getSubtreeWidth_measured (Suc (length nds)) (childrenMap nds) nds i"

text \<open>A single node whose measured width is 0.\<close>

definition zeroWidthLeaf :: "node list" where
  "zeroWidthLeaf = [initialNode\<lparr>measured := Some 0\<rparr>]"

subsection \<open>Subtree widths of the width-aware variant\<close>

lemma getSubtreeWidth_measured_add:
  "getSubtreeWidth_measured f cm st i = Some w \<Longrightarrow>
   getSubtreeWidth_measured (f + k) cm st i = Some w"
proof (induction f arbitrary: i w)
  case 0
  then show ?case by simp
next
  case (Suc f)
  let ?cs = "cm (nid (st ! i))"
  show ?case
  proof (cases "?cs = []")
    case True
    with Suc.prems show ?thesis by simp
  next
    case False
    with Suc.prems obtain ws where
      ws: "those (map (getSubtreeWidth_measured f cm st) ?cs) = Some ws"
      by (auto simp: sumWidths_those Let_def split: option.splits)
    then have "map (getSubtreeWidth_measured f cm st) ?cs = map Some ws"
      by (simp add: those_map_Some_iff)
    then have "\<And>c. c \<in> set ?cs \<Longrightarrow> \<exists>w. getSubtreeWidth_measured f cm st c = Some w"
      by (metis (no_types, lifting) imageE image_eqI list.set_map)
    then have "\<And>c. c \<in> set ?cs \<Longrightarrow>
                 getSubtreeWidth_measured (f + k) cm st c = getSubtreeWidth_measured f cm st c"
      using Suc.IH by fastforce
    then have "those (map (getSubtreeWidth_measured (f + k) cm st) ?cs)
               = those (map (getSubtreeWidth_measured f cm st) ?cs)"
      by (rule map_cong_those)
    with Suc.prems False show ?thesis
      by (simp add: sumWidths_those Let_def)
  qed
qed

lemma getSubtreeWidth_measured_returns:
  assumes dist: "distinct (map nid nds)"
  shows "i < length nds \<Longrightarrow> chain nds (nid (nds ! i)) d \<Longrightarrow> length nds < f + d \<Longrightarrow>
         \<exists>w. getSubtreeWidth_measured f (childrenMap nds) nds i = Some w"
proof (induction f arbitrary: i d)
  case 0
  with chain_bound[of nds "nid (nds ! i)" d] show ?case by simp
next
  case (Suc f)
  let ?cs = "childrenMap nds (nid (nds ! i))"
  have "\<exists>w. getSubtreeWidth_measured f (childrenMap nds) nds c = Some w" if c: "c \<in> set ?cs" for c
  proof -
    from c have cl: "c < length nds" and p: "parentId (nds ! c) = Some (nid (nds ! i))"
      by (simp_all add: in_childrenMap)
    have "chain nds (nid (nds ! c)) (Suc d)"
      using chain_child[OF dist _ p Suc.prems(2)] cl by simp
    from Suc.IH[OF cl this] Suc.prems(3) show ?thesis by simp
  qed
  then have "those (map (getSubtreeWidth_measured f (childrenMap nds) nds) ?cs) \<noteq> None"
    by (auto simp: those_map_None_iff)
  then show ?case
    by (auto simp: sumWidths_those Let_def)
qed

lemma chain_node_pos:
  assumes "distinct (map nid nds)" "i < length nds" "chain nds (nid (nds ! i)) d"
  shows "0 < d"
proof (rule ccontr)
  assume "\<not> 0 < d"
  with assms(3) have c0: "chain nds (nid (nds ! i)) 0" by simp
  have "chainLength nds (Suc 0) (nid (nds ! i)) = Some 0"
    by (rule chain_fuel[OF c0]) simp
  then show False using nodeById_nth[OF assms(1,2)] by (simp split: option.splits)
qed

lemma subtreeWidth_children:
  assumes "distinct (map nid nds)" "acyclic nds" "i < length nds"
  shows "\<exists>ws. map (subtreeWidth nds) (childrenMap nds (nid (nds ! i))) = map Some ws
              \<and> map (getSubtreeWidth (length nds) (childrenMap nds) nds)
                   (childrenMap nds (nid (nds ! i))) = map Some ws"
proof -
  let ?cm = "childrenMap nds"
  let ?cs = "?cm (nid (nds ! i))"
  from assms(2,3) obtain d where d: "chain nds (nid (nds ! i)) d"
    using acyclic_chain nth_mem by blast
  from chain_node_pos[OF assms(1,3) d] have dpos: "0 < d" .
  have one: "\<exists>w. getSubtreeWidth (length nds) ?cm nds c = Some w \<and> subtreeWidth nds c = Some w"
    if c: "c \<in> set ?cs" for c
  proof -
    from c have cl: "c < length nds" and p: "parentId (nds ! c) = Some (nid (nds ! i))"
      by (simp_all add: in_childrenMap)
    have "chain nds (nid (nds ! c)) (Suc d)"
      using chain_child[OF assms(1) _ p d] cl by simp
    from getSubtreeWidth_returns[OF assms(1) cl this, of "length nds"] dpos
    obtain w where w: "getSubtreeWidth (length nds) ?cm nds c = Some w" by auto
    from getSubtreeWidth_mono[OF w, of "Suc (length nds)"] w show ?thesis
      by (simp add: subtreeWidth_def del: getSubtreeWidth.simps)
  qed
  define ws where "ws = map (\<lambda>c. the (subtreeWidth nds c)) ?cs"
  have "map (subtreeWidth nds) ?cs = map Some ws"
    unfolding ws_def by (simp add: map_eq_conv) (metis one option.sel)
  moreover have "map (getSubtreeWidth (length nds) ?cm nds) ?cs = map Some ws"
    unfolding ws_def by (simp add: map_eq_conv del: getSubtreeWidth.simps) (metis one option.sel)
  ultimately show ?thesis by blast
qed

lemma subtreeWidth_measured_children:
  assumes "distinct (map nid nds)" "acyclic nds" "i < length nds"
  shows "\<exists>ws. map (subtreeWidth_measured nds) (childrenMap nds (nid (nds ! i))) = map Some ws
              \<and> map (getSubtreeWidth_measured (length nds) (childrenMap nds) nds)
                   (childrenMap nds (nid (nds ! i))) = map Some ws"
proof -
  let ?cm = "childrenMap nds"
  let ?cs = "?cm (nid (nds ! i))"
  from assms(2,3) obtain d where d: "chain nds (nid (nds ! i)) d"
    using acyclic_chain nth_mem by blast
  from chain_node_pos[OF assms(1,3) d] have dpos: "0 < d" .
  have one: "\<exists>w. getSubtreeWidth_measured (length nds) ?cm nds c = Some w
                 \<and> subtreeWidth_measured nds c = Some w"
    if c: "c \<in> set ?cs" for c
  proof -
    from c have cl: "c < length nds" and p: "parentId (nds ! c) = Some (nid (nds ! i))"
      by (simp_all add: in_childrenMap)
    have "chain nds (nid (nds ! c)) (Suc d)"
      using chain_child[OF assms(1) _ p d] cl by simp
    from getSubtreeWidth_measured_returns[OF assms(1) cl this, of "length nds"] dpos
    obtain w where w: "getSubtreeWidth_measured (length nds) ?cm nds c = Some w" by auto
    from getSubtreeWidth_measured_add[OF w, of 1] w show ?thesis
      by (simp add: subtreeWidth_measured_def del: getSubtreeWidth_measured.simps)
  qed
  define ws where "ws = map (\<lambda>c. the (subtreeWidth_measured nds c)) ?cs"
  have "map (subtreeWidth_measured nds) ?cs = map Some ws"
    unfolding ws_def by (simp add: map_eq_conv) (metis one option.sel)
  moreover have "map (getSubtreeWidth_measured (length nds) ?cm nds) ?cs = map Some ws"
    unfolding ws_def
    by (simp add: map_eq_conv del: getSubtreeWidth_measured.simps) (metis one option.sel)
  ultimately show ?thesis by blast
qed

subsection \<open>Subtree width\<close>

text \<open>
  Claim C4, as stated: the effective width of a node is its measured width when one is
  present.  In the width-aware variant a measured width of 0 is present and is not used:
  the leaf below gets the default width 120.
\<close>

theorem subtreeWidth_zero_measured:
  "measured (zeroWidthLeaf ! 0) = Some 0
   \<and> childrenMap zeroWidthLeaf (nid (zeroWidthLeaf ! 0)) = []
   \<and> subtreeWidth_measured zeroWidthLeaf 0 = Some 120"
  by code_simp

text \<open>
  Claim C4, amended: for every node of a tree both variants of the layout return a
  subtree width.  For a leaf it is the node's own effective width; for an internal node
  it is the sum of the subtree widths of its children plus \<open>(childCount - 1)\<close> horizontal
  gaps, or the node's own effective width if that is larger.  The effective width is the
  constant 180 in \<^verbatim>\<open>v14.tsx\<close>, which consults no measurement, and \<open>currentWidth\<close> in the
  width-aware variant: the measured width when one is present and not 0, the default 120
  otherwise.
\<close>

theorem subtreeWidth_recursion:
  assumes "treeInv nds" "i < length nds"
  shows "\<exists>w wm ws wms.
           subtreeWidth nds i = Some w
           \<and> subtreeWidth_measured nds i = Some wm
           \<and> map (subtreeWidth nds) (childrenMap nds (nid (nds ! i))) = map Some ws
           \<and> map (subtreeWidth_measured nds) (childrenMap nds (nid (nds ! i))) = map Some wms
           \<and> w = (if ws = [] then NODE_WIDTH
                  else max NODE_WIDTH (sum_list ws + (of_nat (length ws) - 1) * HORIZONTAL_GAP))
           \<and> wm = (if wms = [] then currentWidth (nds ! i)
                   else max (currentWidth (nds ! i))
                          (sum_list wms + (of_nat (length wms) - 1) * HORIZONTAL_GAP))
           \<and> currentWidth (nds ! i)
             = (case measured (nds ! i) of
                  None \<Rightarrow> 120
                | Some m \<Rightarrow> if m = 0 then 120 else m)"
proof -
  from assms(1) have d: "distinct (map nid nds)" and a: "acyclic nds"
    by (simp_all add: treeInv_distinct treeInv_acyclic)
  let ?cm = "childrenMap nds"
  let ?cs = "?cm (nid (nds ! i))"
  from subtreeWidth_children[OF d a assms(2)] obtain ws where
    ws: "map (subtreeWidth nds) ?cs = map Some ws"
        "map (getSubtreeWidth (length nds) ?cm nds) ?cs = map Some ws" by blast
  from subtreeWidth_measured_children[OF d a assms(2)] obtain wms where
    wms: "map (subtreeWidth_measured nds) ?cs = map Some wms"
         "map (getSubtreeWidth_measured (length nds) ?cm nds) ?cs = map Some wms" by blast
  from ws(1) have lw: "length ws = length ?cs" by (metis length_map)
  from wms(1) have lwm: "length wms = length ?cs" by (metis length_map)
  from ws(2) have t: "those (map (getSubtreeWidth (length nds) ?cm nds) ?cs) = Some ws"
    by (simp add: those_map_Some_iff)
  from wms(2) have tm: "those (map (getSubtreeWidth_measured (length nds) ?cm nds) ?cs) = Some wms"
    by (simp add: those_map_Some_iff)
  have w: "subtreeWidth nds i
           = Some (if ws = [] then NODE_WIDTH
                   else max NODE_WIDTH (sum_list ws + (of_nat (length ws) - 1) * HORIZONTAL_GAP))"
    using t lw by (auto simp: subtreeWidth_def sumWidths_those Let_def)
  have wm: "subtreeWidth_measured nds i
            = Some (if wms = [] then currentWidth (nds ! i)
                    else max (currentWidth (nds ! i))
                           (sum_list wms + (of_nat (length wms) - 1) * HORIZONTAL_GAP))"
    using tm lwm by (auto simp: subtreeWidth_measured_def sumWidths_those Let_def)
  have "currentWidth (nds ! i)
        = (case measured (nds ! i) of None \<Rightarrow> 120 | Some m \<Rightarrow> if m = 0 then 120 else m)"
    by (simp add: currentWidth_def NODE_WIDTH_measured_def split: option.splits)
  with w wm ws(1) wms(1) show ?thesis by blast
qed

theorem subtreeWidth_recursion_witness:
  "treeInv (nodes exampleEditor) \<and> (0::nat) < length (nodes exampleEditor)
   \<and> subtreeWidth (nodes exampleEditor) 0 = Some 390
   \<and> map (subtreeWidth (nodes exampleEditor))
        (childrenMap (nodes exampleEditor) (nid (nodes exampleEditor ! 0)))
     = map Some [180, 180]"
proof -
  have a: "treeInv (nodes exampleEditor)" by code_simp
  have b: "(0::nat) < length (nodes exampleEditor)" by code_simp
  have c: "map (subtreeWidth (nodes exampleEditor))
             (childrenMap (nodes exampleEditor) (nid (nodes exampleEditor ! 0)))
           = map Some [180, 180]" by code_simp
  from subtreeWidth_recursion[OF a b] obtain w ws where
    w: "subtreeWidth (nodes exampleEditor) 0 = Some w"
       "map (subtreeWidth (nodes exampleEditor))
          (childrenMap (nodes exampleEditor) (nid (nodes exampleEditor ! 0))) = map Some ws"
       "w = (if ws = [] then NODE_WIDTH
             else max NODE_WIDTH (sum_list ws + (of_nat (length ws) - 1) * HORIZONTAL_GAP))"
    by blast
  from w(2) c have "map Some ws = map Some [180, 180]" by simp
  then have "ws = [180, 180]" by (rule map_injective) simp
  with w(1,3) have "subtreeWidth (nodes exampleEditor) 0 = Some 390"
    by (simp add: NODE_WIDTH_def HORIZONTAL_GAP_def)
  with a b c show ?thesis by simp
qed

subsection \<open>The entries of a visit list\<close>

lemma visits_head:
  "visits f cm nds i xc y d v = Some vs \<Longrightarrow> (i, xc, y, d, v) \<in> set vs"
  by (cases f) (auto simp: Let_def split: if_splits option.splits)

lemma visitChildren_part:
  "visitChildren vis zs cx = Some vs \<Longrightarrow> e \<in> set vs \<Longrightarrow>
   \<exists>c x vs'. c \<in> set (map fst zs) \<and> vis c x = Some vs' \<and> e \<in> set vs' \<and> set vs' \<subseteq> set vs"
proof (induction zs arbitrary: cx vs)
  case Nil
  then show ?case by simp
next
  case (Cons z zs)
  obtain c w where z: "z = (c, w)" by (cases z)
  from Cons.prems z obtain v1 v2 where
    v: "vis c (cx + w / 2) = Some v1" "visitChildren vis zs (cx + w + HORIZONTAL_GAP) = Some v2"
       "vs = v1 @ v2"
    by (auto split: option.splits)
  show ?case
  proof (cases "e \<in> set v1")
    case True
    with v z show ?thesis by (intro exI[of _ c] exI[of _ "cx + w / 2"] exI[of _ v1]) auto
  next
    case False
    with v Cons.prems have "e \<in> set v2" by simp
    from Cons.IH[OF v(2) this] obtain c' x' vs' where
      "c' \<in> set (map fst zs)" "vis c' x' = Some vs'" "e \<in> set vs'" "set vs' \<subseteq> set v2" by blast
    with v(3) show ?thesis by (intro exI[of _ c'] exI[of _ x'] exI[of _ vs']) auto
  qed
qed

lemma visitChildren_entry:
  "visitChildren vis zs cx = Some vs \<Longrightarrow> j < length zs \<Longrightarrow>
   \<exists>vs'. vis (fst (zs ! j))
            (cx + sum_list (map (\<lambda>z. snd z + HORIZONTAL_GAP) (take j zs)) + snd (zs ! j) / 2)
          = Some vs'
        \<and> set vs' \<subseteq> set vs"
proof (induction zs arbitrary: cx vs j)
  case Nil
  then show ?case by simp
next
  case (Cons z zs)
  obtain c w where z: "z = (c, w)" by (cases z)
  from Cons.prems z obtain v1 v2 where
    v: "vis c (cx + w / 2) = Some v1" "visitChildren vis zs (cx + w + HORIZONTAL_GAP) = Some v2"
       "vs = v1 @ v2"
    by (auto split: option.splits)
  show ?case
  proof (cases j)
    case 0
    with v z show ?thesis by simp
  next
    case (Suc j')
    with Cons.prems have "j' < length zs" by simp
    from Cons.IH[OF v(2) this] obtain vs' where
      "vis (fst (zs ! j'))
         (cx + w + HORIZONTAL_GAP + sum_list (map (\<lambda>z. snd z + HORIZONTAL_GAP) (take j' zs))
          + snd (zs ! j') / 2) = Some vs'"
      "set vs' \<subseteq> set v2" by blast
    moreover have "cx + w + HORIZONTAL_GAP + sum_list (map (\<lambda>z. snd z + HORIZONTAL_GAP) (take j' zs))
                   = cx + sum_list (map (\<lambda>z. snd z + HORIZONTAL_GAP) (take j (z # zs)))"
      using Suc z by simp
    ultimately show ?thesis using Suc v(3) by auto
  qed
qed

lemma visits_closed:
  "visits f cm nds i xc y d v = Some vs \<Longrightarrow> (j, xc', y', d', v') \<in> set vs \<Longrightarrow>
   \<exists>f' vs'. visits f' cm nds j xc' y' d' v' = Some vs' \<and> set vs' \<subseteq> set vs"
proof (induction f arbitrary: i xc y d vs)
  case 0
  then show ?case by simp
next
  case (Suc f)
  let ?cs = "cm (nid (nds ! i))"
  show ?case
  proof (cases "(j, xc', y', d', v') = (i, xc, y, d, v)")
    case True
    with Suc.prems(1) show ?thesis by blast
  next
    case False
    have ne: "?cs \<noteq> []"
    proof
      assume "?cs = []"
      with Suc.prems(1) have "vs = [(i, xc, y, d, v)]" by auto
      with Suc.prems(2) False show False by auto
    qed
    from Suc.prems(1) ne obtain ws where
      ws: "those (map (getSubtreeWidth f cm nds) ?cs) = Some ws"
      by (cases "those (map (getSubtreeWidth f cm nds) ?cs)") (simp_all add: Let_def)
    from Suc.prems(1) ne ws obtain rest where
      vc: "visitChildren
             (\<lambda>child childCenter. visits f cm nds child childCenter (y + VERTICAL_GAP) (d + 1) v)
             (zip ?cs ws)
             (xc - (sum_list ws + (of_nat (length ?cs) - 1) * HORIZONTAL_GAP) / 2) = Some rest"
      and vs: "vs = (i, xc, y, d, v) # rest"
      by (simp add: Let_def split: option.splits)
    from Suc.prems(2) vs False have e: "(j, xc', y', d', v') \<in> set rest" by auto
    from visitChildren_part[OF vc e] obtain c x vs'' where
      v'': "visits f cm nds c x (y + VERTICAL_GAP) (d + 1) v = Some vs''"
           "(j, xc', y', d', v') \<in> set vs''" "set vs'' \<subseteq> set rest"
      by blast
    from Suc.IH[OF v''(1,2)] obtain f' vs' where
      "visits f' cm nds j xc' y' d' v' = Some vs'" "set vs' \<subseteq> set vs''" by blast
    with v''(3) vs show ?thesis by (intro exI[of _ f'] exI[of _ vs']) auto
  qed
qed

lemma rootVisits_closed:
  "rootVisits f cm nds is = Some vs \<Longrightarrow> (j, xc', y', d', v') \<in> set vs \<Longrightarrow>
   \<exists>f' vs'. visits f' cm nds j xc' y' d' v' = Some vs' \<and> set vs' \<subseteq> set vs"
proof (induction "is" arbitrary: vs)
  case Nil
  then show ?case by simp
next
  case (Cons i "is")
  show ?case
  proof (cases "truthy (parentId (nds ! i))")
    case True
    with Cons show ?thesis by simp
  next
    case False
    with Cons.prems obtain v1 v2 where
      v: "visits f cm nds i (pos_x (nds ! i) + NODE_WIDTH / 2) (pos_y (nds ! i)) 0 True = Some v1"
         "rootVisits f cm nds is = Some v2" "vs = v1 @ v2"
      by (auto split: option.splits)
    show ?thesis
    proof (cases "(j, xc', y', d', v') \<in> set v1")
      case True
      from visits_closed[OF v(1) True] v(3) show ?thesis
        by (metis Un_iff set_append subsetD subsetI)
    next
      case no: False
      with v Cons.prems have "(j, xc', y', d', v') \<in> set v2" by simp
      from Cons.IH[OF v(2) this] v(3) show ?thesis
        by (metis Un_iff set_append subsetD subsetI)
    qed
  qed
qed

text \<open>The left edge of the slot of the \<open>j\<close>-th child, for a row that starts at \<open>x0\<close>.\<close>

definition slotLeft :: "rat list \<Rightarrow> rat \<Rightarrow> nat \<Rightarrow> rat" where
  "slotLeft ws x0 j = x0 + sum_list (map (\<lambda>w. w + HORIZONTAL_GAP) (take j ws))"

lemma visits_children_entries:
  assumes "visits f cm nds p xc y d v = Some vs" "cm (nid (nds ! p)) \<noteq> []"
  shows "\<exists>f' ws. map (getSubtreeWidth f' cm nds) (cm (nid (nds ! p))) = map Some ws
           \<and> (\<forall>j < length ws.
                 (cm (nid (nds ! p)) ! j,
                  slotLeft ws (xc - (sum_list ws + (of_nat (length ws) - 1) * HORIZONTAL_GAP) / 2) j
                    + ws ! j / 2,
                  y + VERTICAL_GAP, d + 1, v) \<in> set vs)"
proof -
  let ?cs = "cm (nid (nds ! p))"
  from assms(1) obtain f' where f: "f = Suc f'" by (cases f) auto
  from assms f obtain ws where
    ws: "those (map (getSubtreeWidth f' cm nds) ?cs) = Some ws"
    by (cases "those (map (getSubtreeWidth f' cm nds) ?cs)") (simp_all add: Let_def)
  from assms f ws obtain rest where
    vc: "visitChildren
             (\<lambda>child childCenter. visits f' cm nds child childCenter (y + VERTICAL_GAP) (d + 1) v)
             (zip ?cs ws)
             (xc - (sum_list ws + (of_nat (length ?cs) - 1) * HORIZONTAL_GAP) / 2) = Some rest"
    and vs: "vs = (p, xc, y, d, v) # rest"
    by (simp add: Let_def split: option.splits)
  from ws have m: "map (getSubtreeWidth f' cm nds) ?cs = map Some ws"
    by (simp add: those_map_Some_iff)
  then have l: "length ws = length ?cs" by (metis length_map)
  let ?x0 = "xc - (sum_list ws + (of_nat (length ws) - 1) * HORIZONTAL_GAP) / 2"
  have "(?cs ! j, slotLeft ws ?x0 j + ws ! j / 2, y + VERTICAL_GAP, d + 1, v) \<in> set vs"
    if j: "j < length ws" for j
  proof -
    from j l have jz: "j < length (zip ?cs ws)" by simp
    from visitChildren_entry[OF vc jz] obtain vs' where
      vs': "visits f' cm nds (fst (zip ?cs ws ! j))
              (xc - (sum_list ws + (of_nat (length ?cs) - 1) * HORIZONTAL_GAP) / 2
               + sum_list (map (\<lambda>z. snd z + HORIZONTAL_GAP) (take j (zip ?cs ws)))
               + snd (zip ?cs ws ! j) / 2)
              (y + VERTICAL_GAP) (d + 1) v = Some vs'"
      "set vs' \<subseteq> set rest" by blast
    have tk: "map (\<lambda>z. snd z + HORIZONTAL_GAP) (take j (zip ?cs ws))
              = map (\<lambda>w. w + HORIZONTAL_GAP) (take j ws)"
    proof -
      have "map snd (take j (zip ?cs ws)) = take j ws"
        using l by (simp add: take_map[symmetric])
      then have "map ((\<lambda>w. w + HORIZONTAL_GAP) \<circ> snd) (take j (zip ?cs ws))
                 = map (\<lambda>w. w + HORIZONTAL_GAP) (take j ws)"
        by (metis map_map)
      then show ?thesis by (simp add: o_def)
    qed
    from j l have nth: "fst (zip ?cs ws ! j) = ?cs ! j" "snd (zip ?cs ws ! j) = ws ! j" by simp_all
    from visits_head[OF vs'(1)] vs'(2) vs show ?thesis
      unfolding nth tk slotLeft_def l by auto
  qed
  with m show ?thesis by blast
qed


subsection \<open>In a tree every node is visited once\<close>

lemma no_self_ancestor:
  assumes "acyclic nds"
  shows "climb nds (Suc k) a \<noteq> Some a"
proof
  assume c: "climb nds (Suc k) a = Some a"
  from assms obtain d where d: "chain nds a d" using chain_exists_of_acyclic by blast
  from climb_chain[OF c d] have "chain nds a (d + Suc k)" .
  from chain_fun[OF d this] show False by simp
qed

lemma same_level:
  assumes "chain nds a d" "chain nds a' d" "climb nds k j = Some a" "climb nds k' j = Some a'"
  shows "a = a'"
proof -
  from climb_chain[OF assms(3,1)] climb_chain[OF assms(4,2)]
  have "d + k = d + k'" by (rule chain_fun)
  with assms(3,4) show ?thesis by simp
qed

lemma nth_nid_inj:
  "distinct (map nid nds) \<Longrightarrow> i < length nds \<Longrightarrow> j < length nds \<Longrightarrow>
   nid (nds ! i) = nid (nds ! j) \<Longrightarrow> i = j"
  using nth_eq_iff_index_eq[of "map nid nds" i j] by simp

lemma child_climb:
  assumes "distinct (map nid nds)" "c \<in> set (childrenMap nds (nid (nds ! i)))"
  shows "climb nds (Suc 0) (nid (nds ! c)) = Some (nid (nds ! i))"
proof -
  from assms(2) have c: "c < length nds" "parentId (nds ! c) = Some (nid (nds ! i))"
    by (simp_all add: in_childrenMap)
  from nodeById_nth[OF assms(1) c(1)] c(2) show ?thesis by simp
qed

lemma visits_within:
  assumes dist: "distinct (map nid nds)"
  shows "i < length nds \<Longrightarrow> visits f (childrenMap nds) nds i xc y d v = Some vs \<Longrightarrow>
         e \<in> set vs \<Longrightarrow>
         fst e < length nds
         \<and> (e = (i, xc, y, d, v)
            \<or> (\<exists>k. climb nds (Suc k) (nid (nds ! fst e)) = Some (nid (nds ! i))))"
proof (induction f arbitrary: i xc y d vs)
  case 0
  then show ?case by simp
next
  case (Suc f)
  let ?cm = "childrenMap nds"
  let ?cs = "?cm (nid (nds ! i))"
  show ?case
  proof (cases "e = (i, xc, y, d, v)")
    case True
    with Suc.prems(1) show ?thesis by simp
  next
    case False
    have ne: "?cs \<noteq> []"
    proof
      assume "?cs = []"
      with Suc.prems(2) have "vs = [(i, xc, y, d, v)]" by auto
      with Suc.prems(3) False show False by auto
    qed
    from Suc.prems(2) ne obtain ws where
      ws: "those (map (getSubtreeWidth f ?cm nds) ?cs) = Some ws"
      by (cases "those (map (getSubtreeWidth f ?cm nds) ?cs)") (simp_all add: Let_def)
    from Suc.prems(2) ne ws obtain rest where
      vc: "visitChildren
             (\<lambda>child childCenter. visits f ?cm nds child childCenter (y + VERTICAL_GAP) (d + 1) v)
             (zip ?cs ws)
             (xc - (sum_list ws + (of_nat (length ?cs) - 1) * HORIZONTAL_GAP) / 2) = Some rest"
      and vs: "vs = (i, xc, y, d, v) # rest"
      by (simp add: Let_def split: option.splits)
    from Suc.prems(3) vs False have e: "e \<in> set rest" by auto
    from visitChildren_part[OF vc e] obtain c x vs' where
      c: "c \<in> set (map fst (zip ?cs ws))"
      and v': "visits f ?cm nds c x (y + VERTICAL_GAP) (d + 1) v = Some vs'" "e \<in> set vs'"
      by blast
    from c have cin: "c \<in> set ?cs" by (auto dest: set_zip_leftD)
    then have cl: "c < length nds" by (simp add: in_childrenMap)
    from child_climb[OF dist cin] have up: "climb nds (Suc 0) (nid (nds ! c)) = Some (nid (nds ! i))" .
    from Suc.IH[OF cl v'] have IH: "fst e < length nds"
      "e = (c, x, y + VERTICAL_GAP, d + 1, v)
       \<or> (\<exists>k. climb nds (Suc k) (nid (nds ! fst e)) = Some (nid (nds ! c)))" by simp_all
    from IH(2) have "\<exists>k. climb nds (Suc k) (nid (nds ! fst e)) = Some (nid (nds ! i))"
    proof
      assume "e = (c, x, y + VERTICAL_GAP, d + 1, v)"
      with up show ?thesis by (intro exI[of _ 0]) simp
    next
      assume "\<exists>k. climb nds (Suc k) (nid (nds ! fst e)) = Some (nid (nds ! c))"
      then obtain k where k: "climb nds (Suc k) (nid (nds ! fst e)) = Some (nid (nds ! c))" by blast
      have "climb nds (Suc k + Suc 0) (nid (nds ! fst e)) = Some (nid (nds ! i))"
        unfolding climb_add[of nds "Suc k" "Suc 0"] k using up by simp
      then show ?thesis by (intro exI[of _ "Suc k"]) simp
    qed
    with IH(1) show ?thesis by blast
  qed
qed

lemma visitChildren_distinct:
  "distinct (map fst zs) \<Longrightarrow> visitChildren vis zs cx = Some vs \<Longrightarrow>
   \<forall>c \<in> set (map fst zs). \<forall>x vs'. vis c x = Some vs' \<longrightarrow>
      distinct (map fst vs') \<and> (\<forall>e \<in> set vs'. P c (fst e)) \<Longrightarrow>
   \<forall>c \<in> set (map fst zs). \<forall>c' \<in> set (map fst zs). \<forall>j. P c j \<longrightarrow> P c' j \<longrightarrow> c = c' \<Longrightarrow>
   distinct (map fst vs) \<and> (\<forall>e \<in> set vs. \<exists>c \<in> set (map fst zs). P c (fst e))"
proof (induction zs arbitrary: cx vs)
  case Nil
  then show ?case by simp
next
  case (Cons z zs)
  obtain c w where z: "z = (c, w)" by (cases z)
  from Cons.prems(2) z obtain v1 v2 where
    v: "vis c (cx + w / 2) = Some v1" "visitChildren vis zs (cx + w + HORIZONTAL_GAP) = Some v2"
       "vs = v1 @ v2"
    by (auto split: option.splits)
  from Cons.prems(3) v(1) z have one: "distinct (map fst v1)" "\<forall>e \<in> set v1. P c (fst e)"
    by simp_all
  have dz: "distinct (map fst zs)" using Cons.prems(1) by simp
  have each': "\<forall>c \<in> set (map fst zs). \<forall>x vs'. vis c x = Some vs' \<longrightarrow>
                 distinct (map fst vs') \<and> (\<forall>e \<in> set vs'. P c (fst e))"
    using Cons.prems(3) by simp
  have apart': "\<forall>c \<in> set (map fst zs). \<forall>c' \<in> set (map fst zs). \<forall>j. P c j \<longrightarrow> P c' j \<longrightarrow> c = c'"
    using Cons.prems(4) by simp
  from Cons.IH[OF dz v(2) each' apart']
  have rest: "distinct (map fst v2)" "\<forall>e \<in> set v2. \<exists>c \<in> set (map fst zs). P c (fst e)"
    by simp_all
  have "fst ` set v1 \<inter> fst ` set v2 = {}"
  proof (rule ccontr)
    assume "fst ` set v1 \<inter> fst ` set v2 \<noteq> {}"
    then obtain e1 e2 where e: "e1 \<in> set v1" "e2 \<in> set v2" "fst e1 = fst e2" by force
    from one(2) e(1) have p1: "P c (fst e1)" by blast
    from rest(2) e(2) obtain c' where c': "c' \<in> set (map fst zs)" "P c' (fst e2)" by blast
    from c'(1) z have "c \<in> set (map fst (z # zs))" "c' \<in> set (map fst (z # zs))" by simp_all
    with Cons.prems(4) p1 c'(2) e(3) have "c = c'" by metis
    with c'(1) Cons.prems(1) z show False by simp
  qed
  with one rest v(3) z show ?case by auto
qed

lemma visits_distinct:
  assumes dist: "distinct (map nid nds)" and ac: "acyclic nds"
  shows "i < length nds \<Longrightarrow> visits f (childrenMap nds) nds i xc y d v = Some vs \<Longrightarrow>
         distinct (map fst vs)"
proof (induction f arbitrary: i xc y d vs)
  case 0
  then show ?case by simp
next
  case (Suc f)
  let ?cm = "childrenMap nds"
  let ?cs = "?cm (nid (nds ! i))"
  show ?case
  proof (cases "?cs = []")
    case True
    with Suc.prems(2) show ?thesis by auto
  next
    case ne: False
    from Suc.prems(2) ne obtain ws where
      ws: "those (map (getSubtreeWidth f ?cm nds) ?cs) = Some ws"
      by (cases "those (map (getSubtreeWidth f ?cm nds) ?cs)") (simp_all add: Let_def)
    from Suc.prems(2) ne ws obtain rest where
      vc: "visitChildren
             (\<lambda>child childCenter. visits f ?cm nds child childCenter (y + VERTICAL_GAP) (d + 1) v)
             (zip ?cs ws)
             (xc - (sum_list ws + (of_nat (length ?cs) - 1) * HORIZONTAL_GAP) / 2) = Some rest"
      and vs: "vs = (i, xc, y, d, v) # rest"
      by (simp add: Let_def split: option.splits)
    from ws have "length ws = length ?cs" by (metis those_map_Some_iff length_map)
    then have mz: "map fst (zip ?cs ws) = ?cs" by simp
    from ac Suc.prems(1) obtain di where di: "chain nds (nid (nds ! i)) di"
      using acyclic_chain nth_mem by blast
    define P where "P c j \<longleftrightarrow> j < length nds
        \<and> (\<exists>k. climb nds k (nid (nds ! j)) = Some (nid (nds ! c)))" for c j
    have dz: "distinct (map fst (zip ?cs ws))" unfolding mz by (rule distinct_childrenMap)
    have each: "\<forall>c \<in> set (map fst (zip ?cs ws)). \<forall>x vs'.
                  visits f ?cm nds c x (y + VERTICAL_GAP) (d + 1) v = Some vs' \<longrightarrow>
                  distinct (map fst vs') \<and> (\<forall>e \<in> set vs'. P c (fst e))"
    proof (intro ballI allI impI)
      fix c x vs'
      assume c: "c \<in> set (map fst (zip ?cs ws))"
        and v': "visits f ?cm nds c x (y + VERTICAL_GAP) (d + 1) v = Some vs'"
      from c mz have cl: "c < length nds" by (simp add: in_childrenMap)
      have "P c (fst e)" if "e \<in> set vs'" for e
        using visits_within[OF dist cl v' that] unfolding P_def
        by (metis climb.simps(1) fst_conv)
      with Suc.IH[OF cl v'] show "distinct (map fst vs') \<and> (\<forall>e \<in> set vs'. P c (fst e))"
        by blast
    qed
    have apart: "\<forall>c \<in> set (map fst (zip ?cs ws)). \<forall>c' \<in> set (map fst (zip ?cs ws)).
                   \<forall>j. P c j \<longrightarrow> P c' j \<longrightarrow> c = c'"
    proof (intro ballI allI impI)
      fix c c' j
      assume c: "c \<in> set (map fst (zip ?cs ws))" and c': "c' \<in> set (map fst (zip ?cs ws))"
        and p: "P c j" "P c' j"
      from c c' mz have cc: "c < length nds" "parentId (nds ! c) = Some (nid (nds ! i))"
        "c' < length nds" "parentId (nds ! c') = Some (nid (nds ! i))"
        by (simp_all add: in_childrenMap)
      have "chain nds (nid (nds ! c)) (Suc di)" "chain nds (nid (nds ! c')) (Suc di)"
        using chain_child[OF dist _ _ di] cc by simp_all
      with p have "nid (nds ! c) = nid (nds ! c')" unfolding P_def using same_level by blast
      with cc show "c = c'" using nth_nid_inj[OF dist] by blast
    qed
    from visitChildren_distinct[OF dz vc, of P] each apart
    have "distinct (map fst rest)
          \<and> (\<forall>e \<in> set rest. \<exists>c \<in> set (map fst (zip ?cs ws)). P c (fst e))"
      by blast
    then have dr: "distinct (map fst rest)"
      and below: "\<forall>e \<in> set rest. \<exists>c \<in> set ?cs. P c (fst e)" unfolding mz by simp_all
    have "i \<notin> fst ` set rest"
    proof
      assume "i \<in> fst ` set rest"
      then obtain e where e: "e \<in> set rest" "fst e = i" by auto
      with below obtain c k where c: "c \<in> set ?cs"
        and k: "climb nds k (nid (nds ! i)) = Some (nid (nds ! c))"
        unfolding P_def by blast
      have "climb nds (k + Suc 0) (nid (nds ! i)) = Some (nid (nds ! i))"
        unfolding climb_add[of nds k "Suc 0"] k using child_climb[OF dist c] by simp
      then show False using no_self_ancestor[OF ac] by simp
    qed
    with dr vs show ?thesis by simp
  qed
qed

text \<open>
  The horizontal extent of the subtree of a laid-out node: as wide as its subtree width
  and centred on the node, whose own box is \<open>NODE_WIDTH\<close> wide and starts at \<open>pos_x\<close>.
\<close>

definition extentLeft :: "node list \<Rightarrow> node list \<Rightarrow> nat \<Rightarrow> rat" where
  "extentLeft nds laid c = pos_x (laid ! c) + NODE_WIDTH / 2 - the (subtreeWidth nds c) / 2"

definition extentRight :: "node list \<Rightarrow> node list \<Rightarrow> nat \<Rightarrow> rat" where
  "extentRight nds laid c = extentLeft nds laid c + the (subtreeWidth nds c)"

lemma falsy_root:
  "wellFormed nds \<Longrightarrow> n \<in> set nds \<Longrightarrow> \<not> truthy (parentId n) \<Longrightarrow> parentId n = None"
  using wellFormed_parent_nonempty[of nds n] by (cases "parentId n") auto

lemma rootVisits_within:
  assumes dist: "distinct (map nid nds)"
  shows "\<forall>i \<in> set is. i < length nds \<Longrightarrow>
         rootVisits f (childrenMap nds) nds is = Some vs \<Longrightarrow> e \<in> set vs \<Longrightarrow>
         \<exists>r \<in> set is. \<not> truthy (parentId (nds ! r)) \<and> fst e < length nds
            \<and> (\<exists>k. climb nds k (nid (nds ! fst e)) = Some (nid (nds ! r)))"
proof (induction "is" arbitrary: vs)
  case Nil
  then show ?case by simp
next
  case (Cons i "is")
  show ?case
  proof (cases "truthy (parentId (nds ! i))")
    case True
    with Cons show ?thesis by auto
  next
    case False
    with Cons.prems obtain v1 v2 where
      v: "visits f (childrenMap nds) nds i (pos_x (nds ! i) + NODE_WIDTH / 2) (pos_y (nds ! i)) 0 True
          = Some v1"
         "rootVisits f (childrenMap nds) nds is = Some v2" "vs = v1 @ v2"
      by (auto split: option.splits)
    from Cons.prems(1) have i: "i < length nds" by simp
    show ?thesis
    proof (cases "e \<in> set v1")
      case True
      from visits_within[OF dist i v(1) True]
      have "fst e < length nds \<and> (\<exists>k. climb nds k (nid (nds ! fst e)) = Some (nid (nds ! i)))"
        by (metis climb.simps(1) fst_conv)
      with False show ?thesis by auto
    next
      case no: False
      with v Cons.prems have "e \<in> set v2" by simp
      from Cons.IH[OF _ v(2) this] Cons.prems(1) show ?thesis by auto
    qed
  qed
qed

lemma rootVisits_distinct:
  assumes wf: "wellFormed nds"
  shows "distinct is \<Longrightarrow> \<forall>i \<in> set is. i < length nds \<Longrightarrow>
         rootVisits f (childrenMap nds) nds is = Some vs \<Longrightarrow> distinct (map fst vs)"
proof (induction "is" arbitrary: vs)
  case Nil
  then show ?case by simp
next
  case (Cons i "is")
  from wf have dist: "distinct (map nid nds)" and ac: "acyclic nds"
    by (simp_all add: wellFormed_def treeInv_distinct treeInv_acyclic)
  show ?case
  proof (cases "truthy (parentId (nds ! i))")
    case True
    with Cons show ?thesis by auto
  next
    case False
    with Cons.prems obtain v1 v2 where
      v: "visits f (childrenMap nds) nds i (pos_x (nds ! i) + NODE_WIDTH / 2) (pos_y (nds ! i)) 0 True
          = Some v1"
         "rootVisits f (childrenMap nds) nds is = Some v2" "vs = v1 @ v2"
      by (auto split: option.splits)
    from Cons.prems(2) have i: "i < length nds" and rest: "\<forall>i \<in> set is. i < length nds" by simp_all
    from visits_distinct[OF dist ac i v(1)] have d1: "distinct (map fst v1)" .
    from Cons.IH[OF _ rest v(2)] Cons.prems(1) have d2: "distinct (map fst v2)" by simp
    have root: "chain nds (nid (nds ! r)) 1" if "r < length nds" "\<not> truthy (parentId (nds ! r))" for r
    proof -
      from falsy_root[OF wf _ that(2)] that(1) have "parentId (nds ! r) = None" by simp
      with nodeById_nth[OF dist that(1)] show ?thesis using chain_root by blast
    qed
    have "fst ` set v1 \<inter> fst ` set v2 = {}"
    proof (rule ccontr)
      assume "fst ` set v1 \<inter> fst ` set v2 \<noteq> {}"
      then obtain e1 e2 where e: "e1 \<in> set v1" "e2 \<in> set v2" "fst e1 = fst e2" by force
      from visits_within[OF dist i v(1) e(1)]
      obtain k1 where k1: "climb nds k1 (nid (nds ! fst e1)) = Some (nid (nds ! i))"
        by (metis climb.simps(1) fst_conv)
      from rootVisits_within[OF dist rest v(2) e(2)] obtain r k2 where
        r: "r \<in> set is" "\<not> truthy (parentId (nds ! r))"
        and k2: "climb nds k2 (nid (nds ! fst e2)) = Some (nid (nds ! r))" by blast
      from r(1) rest have rl: "r < length nds" by simp
      from same_level[OF root[OF i False] root[OF rl r(2)] k1] k2 e(3)
      have "nid (nds ! i) = nid (nds ! r)" by simp
      from nth_nid_inj[OF dist i rl this] r(1) Cons.prems(1) show False by simp
    qed
    with d1 d2 v(3) show ?thesis by simp
  qed
qed

lemma rootVisits_roots:
  "r \<in> set is \<Longrightarrow> \<not> truthy (parentId (nds ! r)) \<Longrightarrow> rootVisits f cm nds is = Some vs \<Longrightarrow>
   (r, pos_x (nds ! r) + NODE_WIDTH / 2, pos_y (nds ! r), 0, True) \<in> set vs"
proof (induction "is" arbitrary: vs)
  case Nil
  then show ?case by simp
next
  case (Cons i "is")
  show ?case
  proof (cases "truthy (parentId (nds ! i))")
    case True
    with Cons show ?thesis by auto
  next
    case False
    with Cons.prems obtain v1 v2 where
      v: "visits f cm nds i (pos_x (nds ! i) + NODE_WIDTH / 2) (pos_y (nds ! i)) 0 True = Some v1"
         "rootVisits f cm nds is = Some v2" "vs = v1 @ v2"
      by (auto split: option.splits)
    show ?thesis
    proof (cases "r = i")
      case True
      with visits_head[OF v(1)] v(3) show ?thesis by simp
    next
      case no: False
      with Cons.prems(1) have "r \<in> set is" by simp
      from Cons.IH[OF this Cons.prems(2) v(2)] v(3) show ?thesis by simp
    qed
  qed
qed

lemma layoutVisits_alt:
  "layoutVisits nds = rootVisits (Suc (length nds)) (childrenMap nds) nds [0..<length nds]"
proof -
  have "rootVisits (Suc (length nds)) (childrenMap nds) (tidy nds) [0..<length nds]
        = rootVisits (Suc (length nds)) (childrenMap nds) nds [0..<length nds]"
    by (rule rootVisits_cong) simp_all
  then show ?thesis by (simp add: layoutVisits_def)
qed

lemma all_visited:
  assumes wf: "wellFormed nds" and vs: "layoutVisits nds = Some vs"
  shows "chain nds (nid (nds ! j)) d \<Longrightarrow> j < length nds \<Longrightarrow> j \<in> fst ` set vs"
proof (induction d arbitrary: j)
  case 0
  from wf have dist: "distinct (map nid nds)" by (simp add: wellFormed_def treeInv_distinct)
  from chain_node_pos[OF dist 0(2) 0(1)] show ?case by simp
next
  case (Suc d)
  from wf have dist: "distinct (map nid nds)" by (simp add: wellFormed_def treeInv_distinct)
  let ?cm = "childrenMap nds"
  from vs have rv: "rootVisits (Suc (length nds)) ?cm nds [0..<length nds] = Some vs"
    by (simp add: layoutVisits_alt)
  show ?case
  proof (cases "parentId (nds ! j)")
    case None
    then have "\<not> truthy (parentId (nds ! j))" by simp
    from rootVisits_roots[OF _ this rv] Suc.prems(2) show ?thesis by force
  next
    case (Some p)
    from wf Suc.prems(2) Some have "p \<in> nid ` set nds"
      unfolding wellFormed_def treeInv_def by (auto split: option.splits dest!: nth_mem)
    then obtain q where q: "q < length nds" "nid (nds ! q) = p"
      by (metis in_set_conv_nth imageE)
    from chain_stepD[OF nodeById_nth[OF dist Suc.prems(2)] Some Suc.prems(1)]
    have "chain nds p d" by simp
    with q Suc.IH[of q] have "q \<in> fst ` set vs" by simp
    then obtain xc y dd v where e: "(q, xc, y, dd, v) \<in> set vs" by force
    from rootVisits_closed[OF rv e] obtain f' vs' where
      v': "visits f' ?cm nds q xc y dd v = Some vs'" "set vs' \<subseteq> set vs" by blast
    from wellFormed_parent_nonempty[OF wf _ Some] Suc.prems(2) have "p \<noteq> []" by simp
    with Suc.prems(2) Some q have jin: "j \<in> set (?cm (nid (nds ! q)))"
      by (simp add: in_childrenMap)
    then have ne: "?cm (nid (nds ! q)) \<noteq> []" by auto
    from visits_children_entries[OF v'(1) ne] obtain f'' ws where
      ws: "map (getSubtreeWidth f'' ?cm nds) (?cm (nid (nds ! q))) = map Some ws"
      and en: "\<forall>l < length ws.
                 (?cm (nid (nds ! q)) ! l,
                  slotLeft ws (xc - (sum_list ws + (of_nat (length ws) - 1) * HORIZONTAL_GAP) / 2) l
                    + ws ! l / 2,
                  y + VERTICAL_GAP, dd + 1, v) \<in> set vs'"
      by blast
    from ws have l: "length ws = length (?cm (nid (nds ! q)))" by (metis length_map)
    from jin obtain l where "l < length (?cm (nid (nds ! q)))" "?cm (nid (nds ! q)) ! l = j"
      by (metis in_set_conv_nth)
    with en l v'(2) show ?thesis by force
  qed
qed

lemma fold_applyVisit_entry:
  assumes "distinct (map fst vs)" "(j, xc, y, d, v) \<in> set vs" "j < length st"
  shows "fold applyVisit vs st ! j = place xc y d v (st ! j)"
proof -
  have "\<exists>x \<in> set (rev vs). fst x = j" using assms(2) by force
  then have "find (\<lambda>e. fst e = j) (rev vs) \<noteq> None"
    unfolding find_None_iff by blast
  then obtain e where e: "find (\<lambda>e. fst e = j) (rev vs) = Some e" by blast
  then have "e \<in> set vs" "fst e = j" by (auto dest: find_SomeD)
  with assms(1,2) have "e = (j, xc, y, d, v)"
    by (metis eq_key_imp_eq_value prod.collapse)
  with e assms(3) show ?thesis by (simp add: fold_applyVisit_nth)
qed

lemma getSubtreeWidth_ge:
  "getSubtreeWidth f cm st i = Some w \<Longrightarrow> NODE_WIDTH \<le> w"
  by (cases f) (auto simp: Let_def split: if_splits option.splits)

lemma getSubtreeWidth_unique:
  assumes "getSubtreeWidth f cm st i = Some w" "getSubtreeWidth f' cm st i = Some w'"
  shows "w = w'"
proof -
  from getSubtreeWidth_mono[OF assms(1), of "max f f'"]
       getSubtreeWidth_mono[OF assms(2), of "max f f'"]
  show ?thesis by simp
qed

lemma slotLeft_Suc:
  "j < length ws \<Longrightarrow> slotLeft ws x0 (Suc j) = slotLeft ws x0 j + ws ! j + HORIZONTAL_GAP"
  by (simp add: slotLeft_def take_Suc_conv_app_nth)

lemma slotLeft_mono:
  assumes "\<forall>w \<in> set ws. 0 \<le> w"
  shows "j \<le> k \<Longrightarrow> k \<le> length ws \<Longrightarrow> slotLeft ws x0 j \<le> slotLeft ws x0 k"
proof (induction k)
  case 0
  then show ?case by simp
next
  case (Suc k)
  show ?case
  proof (cases "j = Suc k")
    case True
    then show ?thesis by simp
  next
    case False
    with Suc have le: "slotLeft ws x0 j \<le> slotLeft ws x0 k" and k: "k < length ws" by simp_all
    from k assms have "0 \<le> ws ! k" by simp
    with le slotLeft_Suc[OF k, of x0] show ?thesis by (simp add: HORIZONTAL_GAP_def)
  qed
qed

lemma subtreeWidth_node:
  assumes d: "distinct (map nid nds)" and a: "acyclic nds" and i: "i < length nds"
  shows "\<exists>ws. map (subtreeWidth nds) (childrenMap nds (nid (nds ! i))) = map Some ws
           \<and> subtreeWidth nds i
             = Some (if ws = [] then NODE_WIDTH
                     else max NODE_WIDTH
                            (sum_list ws + (of_nat (length ws) - 1) * HORIZONTAL_GAP))"
proof -
  let ?cm = "childrenMap nds"
  let ?cs = "?cm (nid (nds ! i))"
  from subtreeWidth_children[OF d a i] obtain ws where
    ws: "map (subtreeWidth nds) ?cs = map Some ws"
        "map (getSubtreeWidth (length nds) ?cm nds) ?cs = map Some ws" by blast
  from ws(1) have lw: "length ws = length ?cs" by (metis length_map)
  from ws(2) have t: "those (map (getSubtreeWidth (length nds) ?cm nds) ?cs) = Some ws"
    by (simp add: those_map_Some_iff)
  have "subtreeWidth nds i
        = Some (if ws = [] then NODE_WIDTH
                else max NODE_WIDTH (sum_list ws + (of_nat (length ws) - 1) * HORIZONTAL_GAP))"
    using t lw by (auto simp: subtreeWidth_def sumWidths_those Let_def)
  with ws(1) show ?thesis by blast
qed

lemma children_slots:
  assumes wf: "wellFormed nds" and laid: "layoutTree nds = Some laid" and p: "p < length nds"
  shows "\<exists>ws. map (subtreeWidth nds) (childrenMap nds (nid (nds ! p))) = map Some ws
           \<and> (\<forall>w \<in> set ws. NODE_WIDTH \<le> w)
           \<and> (\<forall>j < length ws.
                 pos_x (laid ! (childrenMap nds (nid (nds ! p)) ! j)) + NODE_WIDTH / 2
                 = slotLeft ws
                     (pos_x (laid ! p) + NODE_WIDTH / 2
                      - (sum_list ws + (of_nat (length ws) - 1) * HORIZONTAL_GAP) / 2) j
                   + ws ! j / 2)"
proof -
  let ?cm = "childrenMap nds"
  let ?cs = "?cm (nid (nds ! p))"
  from wf have t: "treeInv nds" by (simp add: wellFormed_def)
  then have dist: "distinct (map nid nds)" and ac: "acyclic nds"
    by (simp_all add: treeInv_distinct treeInv_acyclic)
  from subtreeWidth_children[OF dist ac p] obtain ws where
    ws: "map (subtreeWidth nds) ?cs = map Some ws" by blast
  then have lw: "length ws = length ?cs" by (metis length_map)
  have wj: "subtreeWidth nds (?cs ! j) = Some (ws ! j)" if "j < length ws" for j
    using ws that lw by (metis nth_map)
  have ge: "\<forall>w \<in> set ws. NODE_WIDTH \<le> w"
  proof
    fix w assume "w \<in> set ws"
    then obtain j where "j < length ws" "ws ! j = w" by (metis in_set_conv_nth)
    with wj[of j] show "NODE_WIDTH \<le> w"
      unfolding subtreeWidth_def using getSubtreeWidth_ge by blast
  qed
  show ?thesis
  proof (cases "?cs = []")
    case True
    with ws ge show ?thesis by auto
  next
    case ne: False
    from laid obtain vs where vs: "layoutVisits nds = Some vs"
      and l: "laid = fold applyVisit vs (tidy nds)"
      by (auto simp: layoutTree_visits)
    from vs have rv: "rootVisits (Suc (length nds)) ?cm nds [0..<length nds] = Some vs"
      by (simp add: layoutVisits_alt)
    have dv: "distinct (map fst vs)"
      by (rule rootVisits_distinct[OF wf _ _ rv]) simp_all
    from ac p obtain d where "chain nds (nid (nds ! p)) d" using acyclic_chain nth_mem by blast
    from all_visited[OF wf vs this p] obtain xc y dd v where e: "(p, xc, y, dd, v) \<in> set vs"
      by force
    from p have "p < length (tidy nds)" by simp
    from fold_applyVisit_entry[OF dv e this] l have "pos_x (laid ! p) = xc - NODE_WIDTH / 2"
      by (simp add: place_def)
    then have xc: "xc = pos_x (laid ! p) + NODE_WIDTH / 2" by simp
    from rootVisits_closed[OF rv e] obtain f' vs' where
      v': "visits f' ?cm nds p xc y dd v = Some vs'" "set vs' \<subseteq> set vs" by blast
    from visits_children_entries[OF v'(1) ne] obtain f'' ws' where
      ws': "map (getSubtreeWidth f'' ?cm nds) ?cs = map Some ws'"
      and en: "\<forall>j < length ws'.
                 (?cs ! j,
                  slotLeft ws' (xc - (sum_list ws' + (of_nat (length ws') - 1) * HORIZONTAL_GAP) / 2) j
                    + ws' ! j / 2,
                  y + VERTICAL_GAP, dd + 1, v) \<in> set vs'"
      by blast
    from ws' have lw': "length ws' = length ?cs" by (metis length_map)
    have "ws' = ws"
    proof (rule nth_equalityI)
      show "length ws' = length ws" using lw lw' by simp
    next
      fix j assume j: "j < length ws'"
      with ws' lw' have "getSubtreeWidth f'' ?cm nds (?cs ! j) = Some (ws' ! j)" by (metis nth_map)
      moreover from wj[of j] j lw lw'
      have "getSubtreeWidth (Suc (length nds)) ?cm nds (?cs ! j) = Some (ws ! j)"
        by (simp add: subtreeWidth_def del: getSubtreeWidth.simps)
      ultimately show "ws' ! j = ws ! j" by (rule getSubtreeWidth_unique)
    qed
    let ?x0 = "xc - (sum_list ws + (of_nat (length ws) - 1) * HORIZONTAL_GAP) / 2"
    have "pos_x (laid ! (?cs ! j)) + NODE_WIDTH / 2 = slotLeft ws ?x0 j + ws ! j / 2"
      if j: "j < length ws" for j
    proof -
      from en j \<open>ws' = ws\<close> v'(2)
      have en': "(?cs ! j, slotLeft ws ?x0 j + ws ! j / 2, y + VERTICAL_GAP, dd + 1, v) \<in> set vs"
        by auto
      from j lw have "?cs ! j \<in> set ?cs" by simp
      then have "?cs ! j < length (tidy nds)" by (simp add: in_childrenMap)
      from fold_applyVisit_entry[OF dv en' this] l show ?thesis by (simp add: place_def)
    qed
    with ws ge show ?thesis unfolding xc by blast
  qed
qed

lemma slotLeft_0: "slotLeft ws x0 0 = x0"
  by (simp add: slotLeft_def)

lemma sum_list_gaps:
  "sum_list (map (\<lambda>w. w + g) ws) = sum_list ws + of_nat (length ws) * (g::rat)"
  by (induction ws) (simp_all add: algebra_simps)

lemma slotLeft_all:
  "slotLeft ws x0 (length ws) - HORIZONTAL_GAP
   = x0 + (sum_list ws + (of_nat (length ws) - 1) * HORIZONTAL_GAP)"
  by (simp add: slotLeft_def sum_list_gaps algebra_simps)

text \<open>
  The extents of the children of a node are the slots of a row that lies inside the
  extent of the node.
\<close>

lemma child_extents:
  assumes wf: "wellFormed nds" and laid: "layoutTree nds = Some laid" and p: "p < length nds"
  shows "\<exists>ws x0. length ws = length (childrenMap nds (nid (nds ! p)))
           \<and> (\<forall>w \<in> set ws. 0 \<le> w)
           \<and> extentLeft nds laid p \<le> x0
           \<and> slotLeft ws x0 (length ws) - HORIZONTAL_GAP \<le> extentRight nds laid p
           \<and> (\<forall>j < length ws.
                 extentLeft nds laid (childrenMap nds (nid (nds ! p)) ! j) = slotLeft ws x0 j
                 \<and> extentRight nds laid (childrenMap nds (nid (nds ! p)) ! j)
                   = slotLeft ws x0 j + ws ! j)"
proof -
  let ?cs = "childrenMap nds (nid (nds ! p))"
  from wf have t: "treeInv nds" by (simp add: wellFormed_def)
  then have dist: "distinct (map nid nds)" and ac: "acyclic nds"
    by (simp_all add: treeInv_distinct treeInv_acyclic)
  from children_slots[OF wf laid p] obtain ws where
    ws: "map (subtreeWidth nds) ?cs = map Some ws"
    and ge: "\<forall>w \<in> set ws. NODE_WIDTH \<le> w"
    and pos: "\<forall>j < length ws.
                pos_x (laid ! (?cs ! j)) + NODE_WIDTH / 2
                = slotLeft ws
                    (pos_x (laid ! p) + NODE_WIDTH / 2
                     - (sum_list ws + (of_nat (length ws) - 1) * HORIZONTAL_GAP) / 2) j
                  + ws ! j / 2"
    by blast
  let ?tot = "sum_list ws + (of_nat (length ws) - 1) * HORIZONTAL_GAP"
  let ?x0 = "pos_x (laid ! p) + NODE_WIDTH / 2 - ?tot / 2"
  from ws have lw: "length ws = length ?cs" by (metis length_map)
  from subtreeWidth_node[OF dist ac p] obtain ws' where
    ws': "map (subtreeWidth nds) ?cs = map Some ws'"
    and w': "subtreeWidth nds p
             = Some (if ws' = [] then NODE_WIDTH
                     else max NODE_WIDTH
                            (sum_list ws' + (of_nat (length ws') - 1) * HORIZONTAL_GAP))"
    by blast
  from ws ws' have "map Some ws' = map Some ws" by simp
  then have "ws' = ws" by (rule map_injective) simp
  with w' have W: "subtreeWidth nds p
                   = Some (if ws = [] then NODE_WIDTH else max NODE_WIDTH ?tot)" by simp
  let ?W = "if ws = [] then NODE_WIDTH else max NODE_WIDTH ?tot"
  have tw: "?tot \<le> ?W" by (simp add: NODE_WIDTH_def HORIZONTAL_GAP_def)
  have el: "extentLeft nds laid p = pos_x (laid ! p) + NODE_WIDTH / 2 - ?W / 2"
    unfolding extentLeft_def W by simp
  have er: "extentRight nds laid p = pos_x (laid ! p) + NODE_WIDTH / 2 - ?W / 2 + ?W"
    unfolding extentRight_def extentLeft_def W by simp
  have 1: "extentLeft nds laid p \<le> ?x0" unfolding el using tw by simp
  have "slotLeft ws ?x0 (length ws) - HORIZONTAL_GAP = ?x0 + ?tot"
    by (rule slotLeft_all)
  also have "\<dots> = pos_x (laid ! p) + NODE_WIDTH / 2 + ?tot / 2"
  proof -
    have h: "a - t / 2 + t = a + t / 2" for a t :: rat by simp
    show ?thesis by (rule h)
  qed
  also have "\<dots> \<le> pos_x (laid ! p) + NODE_WIDTH / 2 + ?W / 2" using tw by simp
  also have "\<dots> = extentRight nds laid p" unfolding er by simp
  finally have 2: "slotLeft ws ?x0 (length ws) - HORIZONTAL_GAP \<le> extentRight nds laid p" .
  have wj: "the (subtreeWidth nds (?cs ! j)) = ws ! j" if "j < length ws" for j
    using ws that lw by (metis nth_map option.sel)
  have 3: "extentLeft nds laid (?cs ! j) = slotLeft ws ?x0 j
           \<and> extentRight nds laid (?cs ! j) = slotLeft ws ?x0 j + ws ! j"
    if j: "j < length ws" for j
  proof -
    from pos j have "pos_x (laid ! (?cs ! j)) + NODE_WIDTH / 2 = slotLeft ws ?x0 j + ws ! j / 2"
      by blast
    then show ?thesis unfolding extentRight_def extentLeft_def wj[OF j] by simp
  qed
  have nonneg: "\<forall>w \<in> set ws. 0 \<le> w" using ge by (auto simp: NODE_WIDTH_def)
  from lw nonneg 1 2 3 show ?thesis by blast
qed

lemma child_in_parent:
  assumes wf: "wellFormed nds" and laid: "layoutTree nds = Some laid"
    and c: "c < length nds" and p: "p < length nds"
    and cp: "parentId (nds ! c) = Some (nid (nds ! p))"
  shows "extentLeft nds laid p \<le> extentLeft nds laid c
         \<and> extentRight nds laid c \<le> extentRight nds laid p"
proof -
  let ?cs = "childrenMap nds (nid (nds ! p))"
  from child_extents[OF wf laid p] obtain ws x0 where
    lw: "length ws = length ?cs"
    and nonneg: "\<forall>w \<in> set ws. 0 \<le> w"
    and l: "extentLeft nds laid p \<le> x0"
    and r: "slotLeft ws x0 (length ws) - HORIZONTAL_GAP \<le> extentRight nds laid p"
    and e: "\<forall>j < length ws. extentLeft nds laid (?cs ! j) = slotLeft ws x0 j
                           \<and> extentRight nds laid (?cs ! j) = slotLeft ws x0 j + ws ! j"
    by blast
  from wellFormed_parent_nonempty[OF wf nth_mem[OF c] cp] have "nid (nds ! p) \<noteq> []" .
  with c cp have "c \<in> set ?cs" by (simp add: in_childrenMap)
  then obtain j where j: "j < length ?cs" "?cs ! j = c" by (metis in_set_conv_nth)
  with lw have jw: "j < length ws" by simp
  from e jw j(2) have ec: "extentLeft nds laid c = slotLeft ws x0 j"
    "extentRight nds laid c = slotLeft ws x0 j + ws ! j" by auto
  have "x0 \<le> slotLeft ws x0 j"
    using slotLeft_mono[OF nonneg, of 0 j x0] jw by (simp add: slotLeft_0)
  with l ec(1) have 1: "extentLeft nds laid p \<le> extentLeft nds laid c" by simp
  have "slotLeft ws x0 (Suc j) \<le> slotLeft ws x0 (length ws)"
    using slotLeft_mono[OF nonneg, of "Suc j" "length ws" x0] jw by simp
  with slotLeft_Suc[OF jw, of x0] have "slotLeft ws x0 j + ws ! j \<le> slotLeft ws x0 (length ws) - HORIZONTAL_GAP"
    by simp
  with r ec(2) have 2: "extentRight nds laid c \<le> extentRight nds laid p" by simp
  from 1 2 show ?thesis ..
qed

lemma own_box_in_extent:
  assumes wf: "wellFormed nds" and c: "c < length nds"
  shows "extentLeft nds laid c \<le> pos_x (laid ! c)
         \<and> pos_x (laid ! c) + NODE_WIDTH \<le> extentRight nds laid c"
proof -
  from wf have t: "treeInv nds" by (simp add: wellFormed_def)
  then have dist: "distinct (map nid nds)" and ac: "acyclic nds"
    by (simp_all add: treeInv_distinct treeInv_acyclic)
  from subtreeWidth_node[OF dist ac c] obtain w where w: "subtreeWidth nds c = Some w" by blast
  then have "NODE_WIDTH \<le> w" unfolding subtreeWidth_def by (rule getSubtreeWidth_ge)
  then show ?thesis unfolding extentRight_def extentLeft_def w by simp
qed

lemma subtree_in_extent:
  assumes wf: "wellFormed nds" and laid: "layoutTree nds = Some laid" and m: "m < length nds"
  shows "climb nds k (nid (nds ! m)) = Some (nid (nds ! c)) \<Longrightarrow> c < length nds \<Longrightarrow>
         extentLeft nds laid c \<le> pos_x (laid ! m)
         \<and> pos_x (laid ! m) + NODE_WIDTH \<le> extentRight nds laid c"
proof (induction k arbitrary: c)
  case 0
  from wf have dist: "distinct (map nid nds)" by (simp add: wellFormed_def treeInv_distinct)
  from 0 have "nid (nds ! m) = nid (nds ! c)" by simp
  from nth_nid_inj[OF dist m 0(2) this] own_box_in_extent[OF wf 0(2), of laid] show ?case by simp
next
  case (Suc k)
  from Suc.prems(1) obtain c' where
    c': "climb nds k (nid (nds ! m)) = Some (nid c')" "nodeById nds (nid c') = Some c'"
        "parentId c' = Some (nid (nds ! c))"
    unfolding climb_Suc_top by blast
  from c'(2) have "c' \<in> set nds" by (auto dest: nodeById_SomeD)
  then obtain q where q: "q < length nds" "nds ! q = c'" by (metis in_set_conv_nth)
  from c'(1) q(2) have "climb nds k (nid (nds ! m)) = Some (nid (nds ! q))" by simp
  from Suc.IH[OF this q(1)] have
    i: "extentLeft nds laid q \<le> pos_x (laid ! m)"
       "pos_x (laid ! m) + NODE_WIDTH \<le> extentRight nds laid q" by simp_all
  from c'(3) q(2) have "parentId (nds ! q) = Some (nid (nds ! c))" by simp
  from child_in_parent[OF wf laid q(1) Suc.prems(2) this] i show ?case by simp
qed

lemma childrenMap_sorted: "sorted_wrt (<) (childrenMap nds p)"
  unfolding childrenMap_filter by (rule sorted_wrt_filter) simp

lemma siblings_apart:
  assumes wf: "wellFormed nds" and laid: "layoutTree nds = Some laid"
    and ij: "i < j" "j < length nds"
    and par: "parentId (nds ! i) \<noteq> None" "parentId (nds ! i) = parentId (nds ! j)"
  shows "extentRight nds laid i + HORIZONTAL_GAP \<le> extentLeft nds laid j
         \<and> ((\<forall>k. i < k \<and> k < j \<longrightarrow> parentId (nds ! k) \<noteq> parentId (nds ! i)) \<longrightarrow>
              extentLeft nds laid j - extentRight nds laid i = HORIZONTAL_GAP)"
proof -
  from par(1) obtain pid where pid: "parentId (nds ! i) = Some pid" by auto
  from ij have i: "i < length nds" by simp
  from wf have t: "treeInv nds" by (simp add: wellFormed_def)
  from t nth_mem[OF i] pid have "pid \<in> nid ` set nds"
    unfolding treeInv_def by (auto split: option.splits)
  then obtain p where p: "p < length nds" "nid (nds ! p) = pid"
    by (metis in_set_conv_nth imageE)
  from wellFormed_parent_nonempty[OF wf nth_mem[OF i] pid] have ne: "pid \<noteq> []" .
  let ?cs = "childrenMap nds (nid (nds ! p))"
  from child_extents[OF wf laid p(1)] obtain ws x0 where
    lw: "length ws = length ?cs"
    and nonneg: "\<forall>w \<in> set ws. 0 \<le> w"
    and e: "\<forall>j < length ws. extentLeft nds laid (?cs ! j) = slotLeft ws x0 j
                           \<and> extentRight nds laid (?cs ! j) = slotLeft ws x0 j + ws ! j"
    by blast
  have mem: "k \<in> set ?cs \<longleftrightarrow> k < length nds \<and> parentId (nds ! k) = Some pid" for k
    using ne p(2) by (simp add: in_childrenMap)
  from i pid have "i \<in> set ?cs" by (simp add: mem)
  then obtain a where a: "a < length ?cs" "?cs ! a = i" by (metis in_set_conv_nth)
  from ij(2) par(2) pid have "j \<in> set ?cs" by (simp add: mem)
  then obtain b where b: "b < length ?cs" "?cs ! b = j" by (metis in_set_conv_nth)
  note srt = childrenMap_sorted[of nds "nid (nds ! p)"]
  have ab: "a < b"
  proof (rule ccontr)
    assume "\<not> a < b"
    then consider "a = b" | "b < a" by linarith
    then show False
    proof cases
      case 1
      with a(2) b(2) ij(1) show False by simp
    next
      case 2
      from sorted_wrt_nth_less[OF srt 2 a(1)] a(2) b(2) ij(1) show False by simp
    qed
  qed
  from a b lw have aw: "a < length ws" and bw: "b < length ws" by simp_all
  from e aw a(2) have ei: "extentRight nds laid i = slotLeft ws x0 a + ws ! a" by auto
  from e bw b(2) have ej: "extentLeft nds laid j = slotLeft ws x0 b" by auto
  have "slotLeft ws x0 (Suc a) \<le> slotLeft ws x0 b"
    using slotLeft_mono[OF nonneg, of "Suc a" b x0] ab bw by simp
  with slotLeft_Suc[OF aw, of x0] ei ej
  have 1: "extentRight nds laid i + HORIZONTAL_GAP \<le> extentLeft nds laid j" by simp
  have 2: "extentLeft nds laid j - extentRight nds laid i = HORIZONTAL_GAP"
    if adj: "\<forall>k. i < k \<and> k < j \<longrightarrow> parentId (nds ! k) \<noteq> parentId (nds ! i)"
  proof -
    have "b = Suc a"
    proof (rule ccontr)
      assume "b \<noteq> Suc a"
      with ab have sa: "Suc a < b" by simp
      with b(1) have sl: "Suc a < length ?cs" by simp
      let ?k = "?cs ! Suc a"
      from sorted_wrt_nth_less[OF srt _ sl, of a] a(2) have "i < ?k" by simp
      moreover from sorted_wrt_nth_less[OF srt sa b(1)] b(2) have "?k < j" by simp
      moreover from sl have "?k \<in> set ?cs" by simp
      then have "parentId (nds ! ?k) = Some pid" by (simp add: mem)
      ultimately show False using adj pid by auto
    qed
    with slotLeft_Suc[OF aw, of x0] ei ej show ?thesis by simp
  qed
  from 1 2 show ?thesis by blast
qed

text \<open>A tree in which a child of the root has two children of its own.\<close>

definition wideTree :: "node list" where
  "wideTree =
     nodes (the (session [PlusClick ''1'', PlusClick ''1'', PlusClick ''2'', PlusClick ''2'']))"

subsection \<open>Sibling subtrees do not overlap\<close>

text \<open>
  Claim C5, as stated: after a layout pass the intervals \<open>[x, x + subtreeWidth]\<close> of two
  children of a node are disjoint, \<open>x\<close> being the \<open>x\<close> of the child.  In the tree above the
  children of the root are node 2, at \<open>x = 195\<close> with subtree width 390, and node 3, at
  \<open>x = 510\<close> with subtree width 180: the intervals \<open>[195, 585]\<close> and \<open>[510, 690]\<close> have the
  point 510 in common.  The \<open>x\<close> of a node is the left edge of its own box, not of its
  subtree.
\<close>

theorem layout_literal_extents_overlap:
  "layoutTree wideTree = Some wideTree
   \<and> map nid wideTree = [''1'', ''2'', ''3'', ''4'', ''5'']
   \<and> map parentId wideTree = [None, Some ''1'', Some ''1'', Some ''2'', Some ''2'']
   \<and> map pos_x wideTree = [300, 195, 510, 90, 300]
   \<and> map (subtreeWidth wideTree) [1, 2] = [Some 390, Some 180]
   \<and> 510 \<in> {pos_x (wideTree ! 1) .. pos_x (wideTree ! 1) + the (subtreeWidth wideTree 1)}
           \<inter> {pos_x (wideTree ! 2) .. pos_x (wideTree ! 2) + the (subtreeWidth wideTree 2)}"
proof -
  have v: "layoutTree wideTree = Some wideTree
           \<and> map nid wideTree = [''1'', ''2'', ''3'', ''4'', ''5'']
           \<and> map parentId wideTree = [None, Some ''1'', Some ''1'', Some ''2'', Some ''2'']
           \<and> map pos_x wideTree = [300, 195, 510, 90, 300]
           \<and> map (subtreeWidth wideTree) [1, 2] = [Some 390, Some 180]"
    by code_simp
  have x: "pos_x (wideTree ! 1) = 195" "pos_x (wideTree ! 2) = 510" by code_simp+
  from v have w: "subtreeWidth wideTree 1 = Some 390" "subtreeWidth wideTree 2 = Some 180"
    by simp_all
  have "510 \<in> {pos_x (wideTree ! 1) .. pos_x (wideTree ! 1) + the (subtreeWidth wideTree 1)}
            \<inter> {pos_x (wideTree ! 2) .. pos_x (wideTree ! 2) + the (subtreeWidth wideTree 2)}"
    unfolding x w by simp
  with v show ?thesis by blast
qed

text \<open>
  Claim C5, amended.  The extent of the subtree of a node is the interval as wide as its
  subtree width and centred on the box of the node, \<open>[x + 90 - w / 2, x + 90 + w / 2]\<close>.
  On every well-formed tree whose ids are not names of properties of \<^verbatim>\<open>Object.prototype\<close>
  the layout returns, every node has a subtree width, and then:

    \<^item> for two children of the same node, the earlier one in the node set lying to the
      left, the extent of the right one starts at least \<open>HORIZONTAL_GAP\<close> after the end of
      the extent of the left one, so the two extents are disjoint; when no child of that
      node lies between them in the node set, the distance is exactly \<open>HORIZONTAL_GAP\<close>;

    \<^item> the box \<open>[x, x + NODE_WIDTH]\<close> of every node of a subtree lies inside the extent of
      the subtree, so the boxes of nodes in the subtrees of two children of the same node
      are at least \<open>HORIZONTAL_GAP\<close> apart.

  The children of a node are the nodes whose \<^verbatim>\<open>parentId\<close> is its id, and the nodes of its
  subtree are those from which \<^verbatim>\<open>parentId\<close> links lead to it.
\<close>

theorem layout_non_overlap:
  assumes "wellFormed nds"
    and "set (map nid nds) \<inter> set objectPrototypeKeys = {}"
  shows "\<exists>laid. layoutTree nds = Some laid
           \<and> (\<forall>c. c < length nds \<longrightarrow> (\<exists>w. subtreeWidth nds c = Some w))
           \<and> (\<forall>i j. i < j \<and> j < length nds \<and> parentId (nds ! i) \<noteq> None
                    \<and> parentId (nds ! i) = parentId (nds ! j) \<longrightarrow>
                 extentRight nds laid i + HORIZONTAL_GAP \<le> extentLeft nds laid j
                 \<and> {extentLeft nds laid i .. extentRight nds laid i}
                   \<inter> {extentLeft nds laid j .. extentRight nds laid j} = {}
                 \<and> ((\<forall>k. i < k \<and> k < j \<longrightarrow> parentId (nds ! k) \<noteq> parentId (nds ! i)) \<longrightarrow>
                      extentLeft nds laid j - extentRight nds laid i = HORIZONTAL_GAP)
                 \<and> (\<forall>m n. m < length nds \<and> n < length nds
                          \<and> ancestorOrSelf nds (nid (nds ! i)) (nid (nds ! m))
                          \<and> ancestorOrSelf nds (nid (nds ! j)) (nid (nds ! n)) \<longrightarrow>
                       pos_x (laid ! m) + NODE_WIDTH + HORIZONTAL_GAP \<le> pos_x (laid ! n)))
           \<and> (\<forall>c m. c < length nds \<and> m < length nds
                    \<and> ancestorOrSelf nds (nid (nds ! c)) (nid (nds ! m)) \<longrightarrow>
                 extentLeft nds laid c \<le> pos_x (laid ! m)
                 \<and> pos_x (laid ! m) + NODE_WIDTH \<le> extentRight nds laid c)"
proof -
  from assms(1) have da: "distinct (map nid nds)" "acyclic nds"
    by (simp_all add: wellFormed_def treeInv_distinct treeInv_acyclic)
  from layoutTree_returns[OF this] obtain laid where laid: "layoutTree nds = Some laid" by blast
  have sw: "\<exists>w. subtreeWidth nds c = Some w" if "c < length nds" for c
    using subtreeWidth_node[OF da that] by blast
  have inside: "extentLeft nds laid c \<le> pos_x (laid ! m)
                \<and> pos_x (laid ! m) + NODE_WIDTH \<le> extentRight nds laid c"
    if "c < length nds" "m < length nds" "ancestorOrSelf nds (nid (nds ! c)) (nid (nds ! m))"
    for c m
  proof -
    from that(3) obtain k where "climb nds k (nid (nds ! m)) = Some (nid (nds ! c))"
      unfolding ancestorOrSelf_def by blast
    from subtree_in_extent[OF assms(1) laid that(2) this that(1)] show ?thesis .
  qed
  have sib: "extentRight nds laid i + HORIZONTAL_GAP \<le> extentLeft nds laid j
             \<and> {extentLeft nds laid i .. extentRight nds laid i}
               \<inter> {extentLeft nds laid j .. extentRight nds laid j} = {}
             \<and> ((\<forall>k. i < k \<and> k < j \<longrightarrow> parentId (nds ! k) \<noteq> parentId (nds ! i)) \<longrightarrow>
                  extentLeft nds laid j - extentRight nds laid i = HORIZONTAL_GAP)
             \<and> (\<forall>m n. m < length nds \<and> n < length nds
                      \<and> ancestorOrSelf nds (nid (nds ! i)) (nid (nds ! m))
                      \<and> ancestorOrSelf nds (nid (nds ! j)) (nid (nds ! n)) \<longrightarrow>
                   pos_x (laid ! m) + NODE_WIDTH + HORIZONTAL_GAP \<le> pos_x (laid ! n))"
    if ij: "i < j" "j < length nds" and par: "parentId (nds ! i) \<noteq> None"
      "parentId (nds ! i) = parentId (nds ! j)" for i j
  proof -
    from siblings_apart[OF assms(1) laid ij par] have
      ap: "extentRight nds laid i + HORIZONTAL_GAP \<le> extentLeft nds laid j"
      and ad: "(\<forall>k. i < k \<and> k < j \<longrightarrow> parentId (nds ! k) \<noteq> parentId (nds ! i)) \<longrightarrow>
               extentLeft nds laid j - extentRight nds laid i = HORIZONTAL_GAP"
      by blast+
    from ap have "extentRight nds laid i < extentLeft nds laid j"
      by (simp add: HORIZONTAL_GAP_def)
    then have dj: "{extentLeft nds laid i .. extentRight nds laid i}
                   \<inter> {extentLeft nds laid j .. extentRight nds laid j} = {}" by auto
    from ij have i: "i < length nds" by simp
    have bx: "pos_x (laid ! m) + NODE_WIDTH + HORIZONTAL_GAP \<le> pos_x (laid ! n)"
      if "m < length nds" "n < length nds"
        "ancestorOrSelf nds (nid (nds ! i)) (nid (nds ! m))"
        "ancestorOrSelf nds (nid (nds ! j)) (nid (nds ! n))" for m n
      using inside[OF i that(1,3)] inside[OF ij(2) that(2,4)] ap by simp
    from ap dj ad bx show ?thesis by blast
  qed
  from laid sw sib inside show ?thesis by blast
qed

theorem layout_non_overlap_witness:
  "wellFormed wideTree
   \<and> set (map nid wideTree) \<inter> set objectPrototypeKeys = {}
   \<and> layoutTree wideTree = Some wideTree
   \<and> extentRight wideTree wideTree 1 + HORIZONTAL_GAP \<le> extentLeft wideTree wideTree 2
   \<and> extentLeft wideTree wideTree 2 - extentRight wideTree wideTree 1 = HORIZONTAL_GAP
   \<and> pos_x (wideTree ! 4) + NODE_WIDTH + HORIZONTAL_GAP \<le> pos_x (wideTree ! 2)
   \<and> extentLeft wideTree wideTree 1 \<le> pos_x (wideTree ! 4)
   \<and> pos_x (wideTree ! 4) + NODE_WIDTH \<le> extentRight wideTree wideTree 1"
proof -
  have a: "wellFormed wideTree" by code_simp
  have pk: "set (map nid wideTree) \<inter> set objectPrototypeKeys = {}" by code_simp
  have l: "layoutTree wideTree = Some wideTree" by code_simp
  from layout_non_overlap[OF a pk] l have
    s: "\<forall>i j. i < j \<and> j < length wideTree \<and> parentId (wideTree ! i) \<noteq> None
              \<and> parentId (wideTree ! i) = parentId (wideTree ! j) \<longrightarrow>
            extentRight wideTree wideTree i + HORIZONTAL_GAP \<le> extentLeft wideTree wideTree j
            \<and> {extentLeft wideTree wideTree i .. extentRight wideTree wideTree i}
              \<inter> {extentLeft wideTree wideTree j .. extentRight wideTree wideTree j} = {}
            \<and> ((\<forall>k. i < k \<and> k < j \<longrightarrow> parentId (wideTree ! k) \<noteq> parentId (wideTree ! i)) \<longrightarrow>
                 extentLeft wideTree wideTree j - extentRight wideTree wideTree i = HORIZONTAL_GAP)
            \<and> (\<forall>m n. m < length wideTree \<and> n < length wideTree
                     \<and> ancestorOrSelf wideTree (nid (wideTree ! i)) (nid (wideTree ! m))
                     \<and> ancestorOrSelf wideTree (nid (wideTree ! j)) (nid (wideTree ! n)) \<longrightarrow>
                  pos_x (wideTree ! m) + NODE_WIDTH + HORIZONTAL_GAP \<le> pos_x (wideTree ! n))"
    and c: "\<forall>c m. c < length wideTree \<and> m < length wideTree
              \<and> ancestorOrSelf wideTree (nid (wideTree ! c)) (nid (wideTree ! m)) \<longrightarrow>
            extentLeft wideTree wideTree c \<le> pos_x (wideTree ! m)
            \<and> pos_x (wideTree ! m) + NODE_WIDTH \<le> extentRight wideTree wideTree c"
    by auto
  have len: "length wideTree = 5" by code_simp
  have p1: "parentId (wideTree ! 1) \<noteq> None" by code_simp
  have p2: "parentId (wideTree ! 1) = parentId (wideTree ! 2)" by code_simp
  have "climb wideTree 1 (nid (wideTree ! 4)) = Some (nid (wideTree ! 1))" by code_simp
  then have u1: "ancestorOrSelf wideTree (nid (wideTree ! 1)) (nid (wideTree ! 4))"
    unfolding ancestorOrSelf_def by blast
  have "climb wideTree 0 (nid (wideTree ! 2)) = Some (nid (wideTree ! 2))" by simp
  then have u2: "ancestorOrSelf wideTree (nid (wideTree ! 2)) (nid (wideTree ! 2))"
    unfolding ancestorOrSelf_def by blast
  have adj: "\<forall>k. (1::nat) < k \<and> k < 2 \<longrightarrow> parentId (wideTree ! k) \<noteq> parentId (wideTree ! 1)"
    by auto
  from s[rule_format, of 1 2] len p1 p2 have
    s12: "extentRight wideTree wideTree 1 + HORIZONTAL_GAP \<le> extentLeft wideTree wideTree 2"
         "(\<forall>k. 1 < k \<and> k < 2 \<longrightarrow> parentId (wideTree ! k) \<noteq> parentId (wideTree ! 1)) \<longrightarrow>
          extentLeft wideTree wideTree 2 - extentRight wideTree wideTree 1 = HORIZONTAL_GAP"
         "\<forall>m n. m < length wideTree \<and> n < length wideTree
                \<and> ancestorOrSelf wideTree (nid (wideTree ! 1)) (nid (wideTree ! m))
                \<and> ancestorOrSelf wideTree (nid (wideTree ! 2)) (nid (wideTree ! n)) \<longrightarrow>
              pos_x (wideTree ! m) + NODE_WIDTH + HORIZONTAL_GAP \<le> pos_x (wideTree ! n)"
    by simp_all
  from s12(2) adj have g: "extentLeft wideTree wideTree 2 - extentRight wideTree wideTree 1
                           = HORIZONTAL_GAP" by blast
  from s12(3)[rule_format, of 4 2] len u1 u2
  have b: "pos_x (wideTree ! 4) + NODE_WIDTH + HORIZONTAL_GAP \<le> pos_x (wideTree ! 2)" by simp
  from c[rule_format, of 1 4] len u1
  have i: "extentLeft wideTree wideTree 1 \<le> pos_x (wideTree ! 4)"
          "pos_x (wideTree ! 4) + NODE_WIDTH \<le> extentRight wideTree wideTree 1" by simp_all
  from a pk l s12(1) g b i show ?thesis by simp
qed

text \<open>
  In the tree above the children of the root are the nodes at the indices 1 and 2; their
  extents are \<open>[90, 480]\<close> and \<open>[510, 690]\<close>.
\<close>

lemma wideTree_extents:
  "childrenMap wideTree (nid (wideTree ! 0)) = [1, 2]
   \<and> map pos_x wideTree = [300, 195, 510, 90, 300]
   \<and> layoutTree wideTree = Some wideTree
   \<and> map (extentLeft wideTree wideTree) [1, 2] = [90, 510]
   \<and> map (extentRight wideTree wideTree) [1, 2] = [480, 690]"
  by code_simp

subsection \<open>Returning on node sets that are not trees\<close>

lemma rootVisits_returns_roots:
  assumes "\<And>i. i \<in> set is \<Longrightarrow> \<not> truthy (parentId (nds ! i)) \<Longrightarrow>
             \<exists>vs. visits f cm nds i (pos_x (nds ! i) + NODE_WIDTH / 2) (pos_y (nds ! i)) 0 True = Some vs"
  shows "\<exists>vs. rootVisits f cm nds is = Some vs"
  using assms
proof (induction "is")
  case Nil
  show ?case by simp
next
  case (Cons i "is")
  have "\<exists>vs. rootVisits f cm nds is = Some vs"
    by (rule Cons.IH) (use Cons.prems in auto)
  then obtain v2 where v2: "rootVisits f cm nds is = Some v2" by blast
  show ?case
  proof (cases "truthy (parentId (nds ! i))")
    case True
    with v2 show ?thesis by simp
  next
    case False
    with Cons.prems[of i] obtain v1 where
      "visits f cm nds i (pos_x (nds ! i) + NODE_WIDTH / 2) (pos_y (nds ! i)) 0 True = Some v1"
      by auto
    with v2 False show ?thesis by simp
  qed
qed

lemma layoutTree_returns_roots:
  assumes dist: "distinct (map nid nds)"
    and roots: "\<And>i. i < length nds \<Longrightarrow> \<not> truthy (parentId (nds ! i)) \<Longrightarrow>
                   \<exists>d. chain nds (nid (nds ! i)) d"
  shows "\<exists>laid. layoutTree nds = Some laid"
proof -
  have "\<exists>vs. rootVisits (Suc (length nds)) (childrenMap nds) nds [0..<length nds] = Some vs"
  proof (rule rootVisits_returns_roots)
    fix i assume "i \<in> set [0..<length nds]" and f: "\<not> truthy (parentId (nds ! i))"
    then have i: "i < length nds" by simp
    from roots[OF i f] obtain d where c: "chain nds (nid (nds ! i)) d" by blast
    from chain_node_pos[OF dist i c] have "length nds < Suc (length nds) + d" by simp
    from visits_returns[OF dist i c this]
    show "\<exists>vs. visits (Suc (length nds)) (childrenMap nds) nds i
                 (pos_x (nds ! i) + NODE_WIDTH / 2) (pos_y (nds ! i)) 0 True = Some vs"
      by blast
  qed
  then show ?thesis by (simp add: layoutTree_visits layoutVisits_alt)
qed

lemma computeEdges_returns_anchor:
  assumes "distinct (map nid nds)" "chain nds ''10'' d"
  shows "\<exists>es. computeEdges nds = Some es"
proof -
  from getDescendants_returns[OF assms, of "Suc (length nds)"]
  obtain ds where "getDescendants (Suc (length nds)) nds ''10'' = Some ds" by auto
  then show ?thesis
    by (simp add: computeEdges_def findDescendants_getDescendants
             del: findDescendants.simps getDescendants.simps)
qed

subsection \<open>Appending a node\<close>

lemma reachesRoot_snoc:
  "reachesRoot nds k i \<Longrightarrow> reachesRoot (nds @ [x]) k i"
proof (induction k arbitrary: i)
  case 0
  then show ?case by simp
next
  case (Suc k)
  then show ?case by (auto simp: nodeById_snoc split: option.splits)
qed

lemma chain_snoc_old:
  assumes "treeInv nds" "n \<in> set nds"
  shows "\<exists>d. chain (nds @ [x]) (nid n) d"
proof -
  from assms have "reachesRoot nds (length nds) (nid n)" by (simp add: treeInv_def)
  from reachesRoot_chainLength[OF reachesRoot_snoc[OF this]] show ?thesis
    unfolding chain_def by blast
qed

lemma nodeById_snoc_new:
  "nid x \<notin> nid ` set nds \<Longrightarrow> nodeById (nds @ [x]) (nid x) = Some x"
  by (simp add: nodeById_snoc nodeById_None_iff[symmetric])

lemma chain_snoc_new:
  assumes t: "treeInv nds" and fresh: "nid x \<notin> nid ` set nds"
    and p: "parentId x = Some parent" "parent \<noteq> nid x"
  shows "\<exists>d. chain (nds @ [x]) (nid x) d"
proof (cases "parent \<in> nid ` set nds")
  case True
  then obtain n where "n \<in> set nds" "nid n = parent" by auto
  with chain_snoc_old[OF t, of n x] obtain d where "chain (nds @ [x]) parent d" by auto
  from chain_step[OF nodeById_snoc_new[OF fresh] p(1) this] show ?thesis by blast
next
  case False
  with p(2) have "parent \<notin> nid ` set (nds @ [x])" by auto
  from chain_step[OF nodeById_snoc_new[OF fresh] p(1) chain_missing[OF this]]
  show ?thesis by blast
qed

lemma visits_avoid:
  assumes "\<And>q. q < length nds \<Longrightarrow> q \<noteq> j \<Longrightarrow> j \<notin> set (childrenMap nds (nid (nds ! q)))"
  shows "i < length nds \<Longrightarrow> i \<noteq> j \<Longrightarrow>
         visits f (childrenMap nds) nds i xc y d v = Some vs \<Longrightarrow> j \<notin> fst ` set vs"
proof (induction f arbitrary: i xc y d vs)
  case 0
  then show ?case by simp
next
  case (Suc f)
  let ?cm = "childrenMap nds"
  let ?cs = "?cm (nid (nds ! i))"
  show ?case
  proof
    assume "j \<in> fst ` set vs"
    then obtain e where e: "e \<in> set vs" "fst e = j" by auto
    with Suc.prems(2) have nh: "e \<noteq> (i, xc, y, d, v)" by auto
    have ne: "?cs \<noteq> []"
    proof
      assume "?cs = []"
      with Suc.prems(3) have "vs = [(i, xc, y, d, v)]" by auto
      with e(1) nh show False by auto
    qed
    from Suc.prems(3) ne obtain ws where
      ws: "those (map (getSubtreeWidth f ?cm nds) ?cs) = Some ws"
      by (cases "those (map (getSubtreeWidth f ?cm nds) ?cs)") (simp_all add: Let_def)
    from Suc.prems(3) ne ws obtain rest where
      vc: "visitChildren
             (\<lambda>child childCenter. visits f ?cm nds child childCenter (y + VERTICAL_GAP) (d + 1) v)
             (zip ?cs ws)
             (xc - (sum_list ws + (of_nat (length ?cs) - 1) * HORIZONTAL_GAP) / 2) = Some rest"
      and vs: "vs = (i, xc, y, d, v) # rest"
      by (simp add: Let_def split: option.splits)
    from e(1) vs nh have "e \<in> set rest" by auto
    from visitChildren_part[OF vc this] obtain c x vs' where
      c: "c \<in> set (map fst (zip ?cs ws))"
      and v': "visits f ?cm nds c x (y + VERTICAL_GAP) (d + 1) v = Some vs'" "e \<in> set vs'"
      by blast
    from c have cin: "c \<in> set ?cs" by (auto dest: set_zip_leftD)
    then have cl: "c < length nds" by (simp add: in_childrenMap)
    from assms[OF Suc.prems(1,2)] cin have "c \<noteq> j" by auto
    from Suc.IH[OF cl this v'(1)] v'(2) e(2) show False by auto
  qed
qed

lemma rootVisits_avoid:
  assumes "\<And>q. q < length nds \<Longrightarrow> q \<noteq> j \<Longrightarrow> j \<notin> set (childrenMap nds (nid (nds ! q)))"
    and "truthy (parentId (nds ! j))"
  shows "\<forall>i \<in> set is. i < length nds \<Longrightarrow>
         rootVisits f (childrenMap nds) nds is = Some vs \<Longrightarrow> j \<notin> fst ` set vs"
proof (induction "is" arbitrary: vs)
  case Nil
  then show ?case by simp
next
  case (Cons i "is")
  show ?case
  proof (cases "truthy (parentId (nds ! i))")
    case True
    with Cons show ?thesis by auto
  next
    case False
    with Cons.prems obtain v1 v2 where
      v: "visits f (childrenMap nds) nds i (pos_x (nds ! i) + NODE_WIDTH / 2) (pos_y (nds ! i)) 0 True
          = Some v1"
         "rootVisits f (childrenMap nds) nds is = Some v2" "vs = v1 @ v2"
      by (auto split: option.splits)
    from False assms(2) have "i \<noteq> j" by auto
    from visits_avoid[OF assms(1) _ this v(1)] Cons.prems(1) have "j \<notin> fst ` set v1" by simp
    moreover from Cons.IH[OF _ v(2)] Cons.prems(1) have "j \<notin> fst ` set v2" by simp
    ultimately show ?thesis using v(3) by auto
  qed
qed

lemma layoutTree_untouched:
  assumes "layoutTree nds = Some laid" "j < length nds" "truthy (parentId (nds ! j))"
    and "\<And>q. q < length nds \<Longrightarrow> q \<noteq> j \<Longrightarrow> j \<notin> set (childrenMap nds (nid (nds ! q)))"
  shows "laid ! j = (nds ! j)\<lparr>draggable := False\<rparr>"
proof -
  from assms(1) obtain vs where vs: "layoutVisits nds = Some vs"
    and l: "laid = fold applyVisit vs (tidy nds)"
    by (auto simp: layoutTree_visits)
  from vs have rv: "rootVisits (Suc (length nds)) (childrenMap nds) nds [0..<length nds] = Some vs"
    by (simp add: layoutVisits_alt)
  have "j \<notin> fst ` set vs"
    by (rule rootVisits_avoid[OF assms(4,3) _ rv]) simp_all
  from fold_applyVisit_other[OF this] l assms(2) show ?thesis by simp
qed

lemma toString_nonempty: "toString n \<noteq> []"
  by (subst toString.simps) simp

subsection \<open>Adding a child under any parent id\<close>

lemma reachesRoot_self_parent:
  "nodeById nds i = Some n \<Longrightarrow> parentId n = Some i \<Longrightarrow> \<not> reachesRoot nds k i"
  by (induction k) auto

lemma newNode_fields [simp]:
  "nid (newNode rm sel k p) = toString k"
  "parentId (newNode rm sel k p) = Some p"
  "pos_x (newNode rm sel k p) = 0"
  "pos_y (newNode rm sel k p) = 0"
  "draggable (newNode rm sel k p) = False"
  "data_isRelinkMode (newNode rm sel k p) = rm"
  "data_selectedNodeForRelink (newNode rm sel k p) = sel"
  by (simp_all add: newNode_def)

lemma handleAddChild_returns:
  assumes wf: "wellFormed (nodes st)"
    and fresh: "toString (nextId st) \<notin> set (map nid (nodes st))"
    and anchor: "parent \<noteq> ''10'' \<or> toString (nextId st) \<noteq> ''10''"
  shows "\<exists>laid es. layoutTree (nodes st @ [newNode rm sel (nextId st) parent]) = Some laid
           \<and> computeEdges laid = Some es
           \<and> handleAddChild rm sel parent st
             = Some (st\<lparr>nodes := laid, edges := es, nextId := nextId st + 1\<rparr>)"
proof -
  let ?x = "newNode rm sel (nextId st) parent"
  let ?nds = "nodes st"
  let ?X = "?nds @ [?x]"
  from wf have t: "treeInv ?nds" and ne: "[] \<notin> nid ` set ?nds" by (simp_all add: wellFormed_def)
  from fresh have fr: "nid ?x \<notin> nid ` set ?nds" by simp
  have xne: "nid ?x \<noteq> []" by (simp add: toString_nonempty)
  have dist: "distinct (map nid ?X)" using treeInv_distinct[OF t] fr by simp
  have byx: "nodeById ?X (nid ?x) = Some ?x" by (rule nodeById_snoc_new[OF fr])
  have roots: "\<exists>d. chain ?X (nid (?X ! i)) d"
    if i: "i < length ?X" and f: "\<not> truthy (parentId (?X ! i))" for i
  proof (cases "i < length ?nds")
    case True
    then have "?X ! i = ?nds ! i" "?nds ! i \<in> set ?nds" by (simp_all add: nth_append)
    with chain_snoc_old[OF t, of "?nds ! i" ?x] show ?thesis by simp
  next
    case False
    with i have xi: "?X ! i = ?x" by (simp add: nth_append less_Suc_eq)
    with f have "parent = []" by simp
    with xne have "parent \<noteq> nid ?x" by simp
    from chain_snoc_new[OF t fr _ this] xi show ?thesis by simp
  qed
  from layoutTree_returns_roots[OF dist roots] obtain laid where
    laid: "layoutTree ?X = Some laid" by blast
  have s: "sameStructure laid ?X" by (rule layoutTree_sameStructure[OF laid])
  then have dl: "distinct (map nid laid)" using dist by (simp add: sameStructure_def)
  have "\<exists>d. chain ?X ''10'' d"
  proof (cases "''10'' \<in> nid ` set ?nds")
    case True
    then obtain n where "n \<in> set ?nds" "nid n = ''10''" by auto
    with chain_snoc_old[OF t, of n ?x] show ?thesis by simp
  next
    case False
    show ?thesis
    proof (cases "nid ?x = ''10''")
      case True
      with anchor have "parent \<noteq> nid ?x" by simp
      from chain_snoc_new[OF t fr _ this] True show ?thesis by simp
    next
      case nx: False
      with False have "''10'' \<notin> nid ` set ?X" by auto
      from chain_missing[OF this] show ?thesis by blast
    qed
  qed
  then obtain d where "chain laid ''10'' d" by (auto simp: chain_cong[OF s])
  from computeEdges_returns_anchor[OF dl this] obtain es where
    es: "computeEdges laid = Some es" by blast
  from laid es show ?thesis by (simp add: handleAddChild_def)
qed

lemma handleAddChild_missing_parent:
  assumes wf: "wellFormed (nodes st)"
    and fresh: "toString (nextId st) \<notin> set (map nid (nodes st))"
    and laid: "layoutTree (nodes st @ [newNode rm sel (nextId st) parent]) = Some laid"
    and miss: "parent \<notin> set (map nid (nodes st))"
  shows "pos_x (last laid) = 0 \<and> pos_y (last laid) = 0 \<and> \<not> treeInv laid
         \<and> (parent \<noteq> [] \<longrightarrow> last laid = newNode rm sel (nextId st) parent)"
proof -
  let ?x = "newNode rm sel (nextId st) parent"
  let ?nds = "nodes st"
  let ?X = "?nds @ [?x]"
  let ?N = "length ?nds"
  from wf have t: "treeInv ?nds" by (simp add: wellFormed_def)
  from fresh have fr: "nid ?x \<notin> nid ` set ?nds" by simp
  have s: "sameStructure laid ?X" by (rule layoutTree_sameStructure[OF laid])
  from sameStructure_length[OF s] have len: "length laid = Suc ?N" by simp
  then have "laid \<noteq> []" by auto
  from last_conv_nth[OF this] len have last: "last laid = laid ! ?N" by simp
  have xN: "?X ! ?N = ?x" by simp
  have N: "?N < length ?X" by simp
  have untouched: "laid ! ?N = ?x" if "parent \<noteq> []"
  proof -
    have tr: "truthy (parentId (?X ! ?N))" using that by simp
    have av: "?N \<notin> set (childrenMap ?X (nid (?X ! q)))" if q: "q < length ?X" "q \<noteq> ?N" for q
    proof
      assume "?N \<in> set (childrenMap ?X (nid (?X ! q)))"
      then have "parentId (?X ! ?N) = Some (nid (?X ! q))" by (simp add: in_childrenMap)
      then have p: "parent = nid (?X ! q)" by simp
      from q have "q < ?N" by simp
      then have "?X ! q = ?nds ! q" "?nds ! q \<in> set ?nds" by (simp_all add: nth_append)
      with p miss show False by auto
    qed
    from layoutTree_untouched[OF laid N tr av]
    have "laid ! ?N = ?x\<lparr>draggable := False\<rparr>" by simp
    then show ?thesis by (simp add: newNode_def)
  qed
  have pos: "pos_x (laid ! ?N) = 0 \<and> pos_y (laid ! ?N) = 0"
  proof (cases "parent = []")
    case True
    then have "\<not> truthy (parentId (?X ! ?N))" by simp
    from layoutTree_keeps_roots[OF laid N this] show ?thesis by simp
  next
    case False
    from untouched[OF this] show ?thesis by simp
  qed
  have "\<not> treeInv ?X"
  proof (cases "parent = nid ?x")
    case True
    have "nodeById ?X (nid ?x) = Some ?x" by (rule nodeById_snoc_new[OF fr])
    from reachesRoot_self_parent[OF this, of "length ?X"] True
    have "\<not> reachesRoot ?X (length ?X) (nid ?x)" by simp
    moreover have "?x \<in> set ?X" by simp
    ultimately show ?thesis unfolding treeInv_def by blast
  next
    case False
    with miss have "parent \<notin> set (map nid ?X)" by auto
    moreover have "?x \<in> set ?X" "parentId ?x = Some parent" by simp_all
    ultimately have "\<not> (\<forall>n \<in> set ?X. case parentId n of None \<Rightarrow> True
                                        | Some p \<Rightarrow> p \<in> set (map nid ?X))"
      by (intro notI) (drule bspec[of _ _ ?x], simp_all)
    then show ?thesis unfolding treeInv_def by blast
  qed
  then have "\<not> treeInv laid" by (simp add: treeInv_cong[OF s])
  with pos untouched last show ?thesis by simp
qed

text \<open>
  Two parent ids that name no node and behave differently from the rest.  The empty
  string is falsy, so the layout takes the new node for a root and visits it.  And when
  the id being allocated is \<^verbatim>\<open>'10'\<close>, the anchor of \<^verbatim>\<open>findDescendants\<close>, the parent id
  \<^verbatim>\<open>'10'\<close> makes the new node its own parent and the scan of the edge deriver never
  returns.
\<close>

definition emptyParent :: "editor option" where
  "emptyParent = handleAddChild False None [] (the mount)"

definition selfParent :: "editor option" where
  "selfParent =
     handleAddChild False None ''10'' (the (session (replicate 8 (PlusClick ''1''))))"

text \<open>
  Claim C10, as stated: for every parent id that names no node, the layout pass never
  visits the new node.  With the empty string as the parent id of the second node, the
  new node gets the colour of depth 0 from the layout, like the root.
\<close>

theorem handleAddChild_empty_parent_visited:
  "[] \<notin> set (map nid (nodes (the mount)))
   \<and> map_option (map parentId \<circ> nodes) emptyParent = Some [None, Some []]
   \<and> map_option (map background \<circ> nodes) emptyParent
     = Some [Some ''#172A2E'', Some ''#172A2E'']
   \<and> background (newNode False None 2 []) = None"
  by code_simp

lemma handleAddChild_self_parent_anchor:
  "map_option nextId (session (replicate 8 (PlusClick ''1''))) = Some 10
   \<and> toString 10 = ''10''
   \<and> selfParent = None"
  by code_simp

text \<open>
  Claim C10, amended: on a well-formed tree whose next id is unused and whose ids are not
  names of properties of \<^verbatim>\<open>Object.prototype\<close>, add-child returns for every parent id that
  is not such a name either, unless both the parent id and the id being allocated are
  \<^verbatim>\<open>'10'\<close>; it increments the counter and appends the new node with that parent id,
  changing nothing but layout fields.  When the parent id names no node of the tree, the
  new node keeps its position (0, 0) and the node set is no longer a tree; when it is
  moreover not the empty string, the layout does not visit the new node, which stays as
  created.
\<close>

theorem handleAddChild_unchecked_parent:
  assumes "wellFormed (nodes st)"
    and "toString (nextId st) \<notin> set (map nid (nodes st))"
    and "set (map nid (nodes st)) \<inter> set objectPrototypeKeys = {}"
    and "parent \<notin> set objectPrototypeKeys"
    and "parent \<noteq> ''10'' \<or> toString (nextId st) \<noteq> ''10''"
  shows "\<exists>st'. handleAddChild rm sel parent st = Some st'
           \<and> nextId st' = nextId st + 1
           \<and> map stripLayout (nodes st')
             = map stripLayout (nodes st @ [newNode rm sel (nextId st) parent])
           \<and> (parent \<notin> set (map nid (nodes st)) \<longrightarrow>
                pos_x (last (nodes st')) = 0 \<and> pos_y (last (nodes st')) = 0
                \<and> \<not> treeInv (nodes st')
                \<and> (parent \<noteq> [] \<longrightarrow> last (nodes st') = newNode rm sel (nextId st) parent))"
proof -
  from handleAddChild_returns[OF assms(1,2,5), of rm sel] obtain laid es where
    l: "layoutTree (nodes st @ [newNode rm sel (nextId st) parent]) = Some laid"
    and h: "handleAddChild rm sel parent st
            = Some (st\<lparr>nodes := laid, edges := es, nextId := nextId st + 1\<rparr>)"
    by blast
  from handleAddChild_missing_parent[OF assms(1,2) l]
       layoutTree_stripLayout[OF l] h
  show ?thesis by simp
qed

theorem handleAddChild_unchecked_parent_witness:
  "wellFormed (nodes exampleEditor)
   \<and> toString (nextId exampleEditor) \<notin> set (map nid (nodes exampleEditor))
   \<and> set (map nid (nodes exampleEditor)) \<inter> set objectPrototypeKeys = {}
   \<and> ''7'' \<notin> set objectPrototypeKeys
   \<and> ''7'' \<notin> set (map nid (nodes exampleEditor))
   \<and> (\<exists>st'. handleAddChild False None ''7'' exampleEditor = Some st'
          \<and> nextId st' = nextId exampleEditor + 1
          \<and> map stripLayout (nodes st')
            = map stripLayout
                (nodes exampleEditor @ [newNode False None (nextId exampleEditor) ''7''])
          \<and> last (nodes st') = newNode False None (nextId exampleEditor) ''7''
          \<and> \<not> treeInv (nodes st'))"
proof -
  have a: "wellFormed (nodes exampleEditor)" by code_simp
  have b: "toString (nextId exampleEditor) \<notin> set (map nid (nodes exampleEditor))" by code_simp
  have p: "set (map nid (nodes exampleEditor)) \<inter> set objectPrototypeKeys = {}" by code_simp
  have q: "''7'' \<notin> set objectPrototypeKeys" by code_simp
  have c: "''7'' \<noteq> ''10'' \<or> toString (nextId exampleEditor) \<noteq> ''10''" by simp
  have d: "''7'' \<notin> set (map nid (nodes exampleEditor))" by code_simp
  have e: "''7'' \<noteq> []" by simp
  from handleAddChild_unchecked_parent[OF a b p q c, of False None] a b p q d e
  show ?thesis by blast
qed

section \<open>The invariants along a session\<close>

text \<open>
  What every state of a session satisfies: the node set is a well-formed tree; every
  identifier was allocated from the counter, so the next one is unused; and an id that
  the \<^verbatim>\<open>data\<close> of some node records as selected for relinking never names the root.
\<close>

definition idsBelow :: "nat \<Rightarrow> node list \<Rightarrow> bool" where
  "idsBelow k nds \<longleftrightarrow> (\<forall>n \<in> set nds. nid n \<in> set (map toString [0..<k]))"

definition relinkOk :: "node list \<Rightarrow> bool" where
  "relinkOk nds \<longleftrightarrow>
     (\<forall>n \<in> set nds. \<forall>m \<in> set nds.
        data_selectedNodeForRelink n = Some (nid m) \<longrightarrow> parentId m \<noteq> None)"

definition nodesInv :: "nat \<Rightarrow> node list \<Rightarrow> bool" where
  "nodesInv k nds \<longleftrightarrow> wellFormed nds \<and> idsBelow k nds \<and> relinkOk nds"

definition editorInv :: "editor \<Rightarrow> bool" where
  "editorInv st \<longleftrightarrow> nodesInv (nextId st) (nodes st)"

subsection \<open>Identifiers\<close>

lemma digitChar_inj:
  assumes "a < 10" "b < 10" "digitChar a = digitChar b"
  shows "a = b"
proof -
  from assms(3) have "of_char (char_of (48 + a)) = (of_char (char_of (48 + b)) :: nat)"
    by (simp add: digitChar_def)
  then have "(48 + a) mod 256 = (48 + b) mod 256" by (simp only: of_char_of)
  with assms(1,2) show ?thesis by simp
qed

lemma toString_small: "n < 10 \<Longrightarrow> toString n = [digitChar n]"
  by (subst toString.simps) simp

lemma toString_large:
  "\<not> n < 10 \<Longrightarrow> toString n = toString (n div 10) @ [digitChar (n mod 10)]"
  by (subst toString.simps) simp

lemma toString_large_length: "\<not> n < 10 \<Longrightarrow> 2 \<le> length (toString n)"
proof -
  assume a: "\<not> n < 10"
  have "toString (n div 10) \<noteq> []" by (rule toString_nonempty)
  then have "1 \<le> length (toString (n div 10))" by (cases "toString (n div 10)") simp_all
  with a show ?thesis by (simp add: toString_large)
qed

lemma toString_inj: "toString a = toString b \<Longrightarrow> a = b"
proof (induction a arbitrary: b rule: toString.induct)
  case (1 n)
  show ?case
  proof (cases "n < 10")
    case True
    show ?thesis
    proof (cases "b < 10")
      case b: True
      from "1.prems" True b have "digitChar n = digitChar b" by (simp add: toString_small)
      from digitChar_inj[OF True b this] show ?thesis .
    next
      case False
      from "1.prems" True have "toString b = [digitChar n]" by (simp add: toString_small)
      then have "length (toString b) = 1" by simp
      with toString_large_length[OF False] show ?thesis by simp
    qed
  next
    case False
    show ?thesis
    proof (cases "b < 10")
      case True
      from toString_large_length[OF False] "1.prems" True show ?thesis
        by (simp add: toString_small)
    next
      case b: False
      from "1.prems" False b have
        e: "toString (n div 10) = toString (b div 10)"
           "digitChar (n mod 10) = digitChar (b mod 10)"
        by (simp_all add: toString_large)
      from "1.IH"[OF False e(1)] have d: "n div 10 = b div 10" .
      have "n mod 10 = b mod 10" by (rule digitChar_inj[OF _ _ e(2)]) simp_all
      with d show ?thesis by (metis div_mult_mod_eq)
    qed
  qed
qed

lemma idsBelow_fresh:
  assumes "idsBelow k nds"
  shows "toString k \<notin> nid ` set nds"
proof
  assume "toString k \<in> nid ` set nds"
  then obtain n where n: "n \<in> set nds" "nid n = toString k" by auto
  from assms n(1) have "nid n \<in> set (map toString [0..<k])" unfolding idsBelow_def by blast
  with n(2) have "toString k \<in> toString ` {0..<k}" by simp
  then obtain j where "j < k" "toString k = toString j" by auto
  with toString_inj[of k j] show False by simp
qed

text \<open>
  Identifiers allocated by the counter consist of decimal digits, so they never name a
  property of \<^verbatim>\<open>Object.prototype\<close>.
\<close>

lemma digitChar_digit: "d < 10 \<Longrightarrow> digitChar d \<in> set ''0123456789''"
proof -
  assume "d < 10"
  then have "d \<in> set [0..<10]" by simp
  moreover have "\<forall>d \<in> set [0..<10]. digitChar d \<in> set ''0123456789''" by code_simp
  ultimately show ?thesis by blast
qed

lemma toString_digits: "set (toString k) \<subseteq> set ''0123456789''"
proof (induction k rule: toString.induct)
  case (1 n)
  show ?case
  proof (cases "n < 10")
    case True
    with digitChar_digit[OF True] show ?thesis by (simp add: toString_small)
  next
    case False
    have "n mod 10 < 10" by simp
    from digitChar_digit[OF this] "1.IH"[OF False] False show ?thesis
      by (simp add: toString_large)
  qed
qed

lemma toString_plain: "toString k \<notin> set objectPrototypeKeys"
proof
  assume "toString k \<in> set objectPrototypeKeys"
  moreover have "\<forall>key \<in> set objectPrototypeKeys. \<not> set key \<subseteq> set ''0123456789''"
    by code_simp
  ultimately have "\<not> set (toString k) \<subseteq> set ''0123456789''" by blast
  with toString_digits show False by blast
qed

lemma idsBelow_plain:
  assumes "idsBelow k nds"
  shows "set (map nid nds) \<inter> set objectPrototypeKeys = {}"
proof -
  have "nid n \<notin> set objectPrototypeKeys" if "n \<in> set nds" for n
  proof -
    from assms that have "nid n \<in> set (map toString [0..<k])" unfolding idsBelow_def by blast
    then obtain j where "nid n = toString j" by auto
    with toString_plain[of j] show ?thesis by simp
  qed
  then show ?thesis by auto
qed

subsection \<open>Trees from chains\<close>

lemma reachesRoot_mono: "reachesRoot nds k i \<Longrightarrow> reachesRoot nds (k + j) i"
proof (induction k arbitrary: i)
  case 0
  then show ?case by simp
next
  case (Suc k)
  then show ?case by (auto split: option.splits)
qed

lemma chainLength_reachesRoot:
  assumes pe: "\<forall>n \<in> set nds. case parentId n of None \<Rightarrow> True | Some p \<Rightarrow> p \<in> set (map nid nds)"
  shows "i \<in> nid ` set nds \<Longrightarrow> chainLength nds f i = Some d \<Longrightarrow> reachesRoot nds d i"
proof (induction f arbitrary: i d)
  case 0
  then show ?case by simp
next
  case (Suc f)
  from Suc.prems(1) obtain n where n: "nodeById nds i = Some n"
    by (cases "nodeById nds i") (auto simp: nodeById_None_iff)
  then have nin: "n \<in> set nds" by (auto dest: nodeById_SomeD)
  show ?case
  proof (cases "parentId n")
    case None
    with n Suc.prems(2) have "d = 1" by simp
    with n None show ?thesis by simp
  next
    case (Some p)
    from pe nin have "case parentId n of None \<Rightarrow> True | Some p \<Rightarrow> p \<in> set (map nid nds)"
      by (rule bspec)
    with Some have pin: "p \<in> nid ` set nds" by simp
    from Suc.prems(2) n Some obtain d' where d': "chainLength nds f p = Some d'" "d = Suc d'"
      by auto
    from Suc.IH[OF pin d'(1)] n Some d'(2) show ?thesis by simp
  qed
qed

lemma treeInvI:
  assumes one: "length (filter (\<lambda>n. parentId n = None) nds) = 1"
    and pe: "\<forall>n \<in> set nds. case parentId n of None \<Rightarrow> True | Some p \<Rightarrow> p \<in> set (map nid nds)"
    and dist: "distinct (map nid nds)"
    and ac: "acyclic nds"
  shows "treeInv nds"
proof -
  have "reachesRoot nds (length nds) (nid n)" if n: "n \<in> set nds" for n
  proof -
    from acyclic_chain[OF ac n] obtain d where d: "chain nds (nid n) d" by blast
    then obtain f where f: "chainLength nds f (nid n) = Some d" unfolding chain_def by blast
    from n have "nid n \<in> nid ` set nds" by simp
    from chainLength_reachesRoot[OF pe this f] have "reachesRoot nds d (nid n)" .
    from reachesRoot_mono[OF this, of "length nds - d"] chain_bound[OF d] show ?thesis by simp
  qed
  with one pe dist show ?thesis unfolding treeInv_def by blast
qed

lemma treeInv_parents:
  "treeInv nds \<Longrightarrow> n \<in> set nds \<Longrightarrow> parentId n = Some p \<Longrightarrow> p \<in> nid ` set nds"
proof -
  assume t: "treeInv nds" and n: "n \<in> set nds" and p: "parentId n = Some p"
  from t have "\<forall>n \<in> set nds. case parentId n of None \<Rightarrow> True | Some p \<Rightarrow> p \<in> set (map nid nds)"
    by (simp add: treeInv_def)
  from bspec[OF this n] p show ?thesis by simp
qed

lemma relayout:
  assumes "treeInv X"
  shows "\<exists>laid es. layoutTree X = Some laid \<and> computeEdges laid = Some es
           \<and> map stripLayout laid = map stripLayout X"
proof -
  from assms have d: "distinct (map nid X)" and a: "acyclic X"
    by (simp_all add: treeInv_distinct treeInv_acyclic)
  from layoutTree_returns[OF d a] obtain laid where l: "layoutTree X = Some laid" by blast
  have s: "sameStructure laid X" by (rule layoutTree_sameStructure[OF l])
  from s d have dl: "distinct (map nid laid)" by (simp add: sameStructure_def)
  from a have "acyclic laid" by (simp add: acyclic_cong[OF s])
  from computeEdges_returns[OF dl this] obtain es where "computeEdges laid = Some es" by blast
  with l layoutTree_stripLayout[OF l] show ?thesis by blast
qed

subsection \<open>The invariants do not depend on the layout\<close>

lemma stripLayout_fields [simp]:
  "nid (stripLayout n) = nid n"
  "parentId (stripLayout n) = parentId n"
  "data_selectedNodeForRelink (stripLayout n) = data_selectedNodeForRelink n"
  by (simp_all add: stripLayout_def)

lemma strip_sameStructure:
  assumes "map stripLayout a = map stripLayout b"
  shows "sameStructure a b"
proof -
  have n: "map nid c = map nid (map stripLayout c)" for c by simp
  have p: "map parentId c = map parentId (map stripLayout c)" for c by simp
  show ?thesis unfolding sameStructure_def
    by (simp only: n[of a] n[of b] p[of a] p[of b] assms)
qed

lemma idsBelow_strip: "idsBelow k (map stripLayout nds) = idsBelow k nds"
  by (simp add: idsBelow_def)

lemma relinkOk_strip: "relinkOk (map stripLayout nds) = relinkOk nds"
  by (simp add: relinkOk_def)

lemma nodesInv_cong:
  assumes "map stripLayout a = map stripLayout b"
  shows "nodesInv k a = nodesInv k b"
proof -
  have "idsBelow k a = idsBelow k b"
    using idsBelow_strip[of k a] idsBelow_strip[of k b] assms by simp
  moreover have "relinkOk a = relinkOk b"
    using relinkOk_strip[of a] relinkOk_strip[of b] assms by simp
  moreover have "wellFormed a = wellFormed b"
    by (rule wellFormed_cong[OF strip_sameStructure[OF assms]])
  ultimately show ?thesis by (simp add: nodesInv_def)
qed

subsection \<open>Adding a child keeps the invariants\<close>

lemma nodesInv_add:
  assumes inv: "nodesInv k nds" and p: "p \<in> nid ` set nds"
  shows "nodesInv (Suc k) (nds @ [newNode rm None k p])"
proof -
  let ?x = "newNode rm None k p"
  let ?X = "nds @ [?x]"
  from inv have wf: "wellFormed nds" and ib: "idsBelow k nds" and ro: "relinkOk nds"
    by (simp_all add: nodesInv_def)
  from wf have t: "treeInv nds" and ne: "[] \<notin> nid ` set nds" by (simp_all add: wellFormed_def)
  have dist: "distinct (map nid nds)" by (rule treeInv_distinct[OF t])
  from idsBelow_fresh[OF ib] have fr: "nid ?x \<notin> nid ` set nds" by simp
  have pne: "p \<noteq> nid ?x"
  proof
    assume "p = nid ?x"
    with p have "nid ?x \<in> nid ` set nds" by simp
    with fr show False by simp
  qed
  have one: "length (filter (\<lambda>n. parentId n = None) ?X) = 1"
    using t by (simp add: treeInv_def)
  have pe: "\<forall>n \<in> set ?X. case parentId n of None \<Rightarrow> True | Some q \<Rightarrow> q \<in> set (map nid ?X)"
  proof
    fix n assume "n \<in> set ?X"
    then consider "n \<in> set nds" | "n = ?x" by auto
    then show "case parentId n of None \<Rightarrow> True | Some q \<Rightarrow> q \<in> set (map nid ?X)"
    proof cases
      case 1
      show ?thesis
      proof (cases "parentId n")
        case None
        then show ?thesis by simp
      next
        case (Some q)
        from treeInv_parents[OF t 1 Some] Some show ?thesis by simp
      qed
    next
      case 2
      with p show ?thesis by simp
    qed
  qed
  have dX: "distinct (map nid ?X)" using dist fr by simp
  have ac: "acyclic ?X"
  proof (rule acyclicI)
    fix n assume "n \<in> set ?X"
    then consider "n \<in> set nds" | "n = ?x" by auto
    then show "\<exists>d. chain ?X (nid n) d"
    proof cases
      case 1
      from chain_snoc_old[OF t 1] show ?thesis .
    next
      case 2
      have "parentId ?x = Some p" by simp
      from chain_snoc_new[OF t fr this pne] 2 show ?thesis by simp
    qed
  qed
  have "treeInv ?X" by (rule treeInvI[OF one pe dX ac])
  moreover have "[] \<notin> set (map nid ?X)"
    using ne toString_nonempty[of k, THEN not_sym] by simp
  ultimately have w: "wellFormed ?X" by (simp add: wellFormed_def)
  have i: "idsBelow (Suc k) ?X" using ib by (auto simp: idsBelow_def)
  have r: "relinkOk ?X" using ro unfolding relinkOk_def by auto
  from w i r show ?thesis by (simp add: nodesInv_def)
qed

subsection \<open>Deleting a subtree keeps the invariants\<close>

lemma same_id:
  assumes "distinct (map nid nds)" "a \<in> set nds" "b \<in> set nds" "nid a = nid b"
  shows "a = b"
proof -
  from assms(1) have "inj_on nid (set nds)" by (simp add: distinct_map)
  from inj_onD[OF this assms(4,2,3)] show ?thesis .
qed

lemma climb_root:
  assumes "distinct (map nid nds)" "r \<in> set nds" "parentId r = None"
    "climb nds k (nid r) = Some a"
  shows "a = nid r"
proof (cases k)
  case 0
  with assms(4) show ?thesis by simp
next
  case (Suc k')
  from nodeById_distinct[OF assms(1,2)] assms(3,4) Suc show ?thesis by simp
qed

lemma climb_parent:
  assumes "distinct (map nid nds)" "m \<in> set nds" "parentId m = Some p" "climb nds k p = Some a"
  shows "climb nds (Suc k) (nid m) = Some a"
  using nodeById_distinct[OF assms(1,2)] assms(3,4) by simp

lemma nodesInv_delete:
  assumes inv: "nodesInv k nds" and a: "a \<in> set nds" "parentId a \<noteq> None"
  shows "nodesInv k (filter (\<lambda>m. \<not> ancestorOrSelf nds (nid a) (nid m)) nds)"
proof -
  let ?P = "\<lambda>m. \<not> ancestorOrSelf nds (nid a) (nid m)"
  let ?F = "filter ?P nds"
  from inv have wf: "wellFormed nds" and ib: "idsBelow k nds" and ro: "relinkOk nds"
    by (simp_all add: nodesInv_def)
  from wf have t: "treeInv nds" and ne: "[] \<notin> nid ` set nds" by (simp_all add: wellFormed_def)
  have dist: "distinct (map nid nds)" by (rule treeInv_distinct[OF t])
  have ac: "acyclic nds" by (rule treeInv_acyclic[OF t])
  have one: "length (filter (\<lambda>n. parentId n = None) ?F) = 1"
  proof -
    from t have "length (filter (\<lambda>n. parentId n = None) nds) = 1" by (simp add: treeInv_def)
    then obtain r where r: "filter (\<lambda>n. parentId n = None) nds = [r]"
      by (cases "filter (\<lambda>n. parentId n = None) nds") auto
    then have "r \<in> set (filter (\<lambda>n. parentId n = None) nds)" by simp
    then have rin: "r \<in> set nds" and rp: "parentId r = None" by simp_all
    have Pr: "?P r"
    proof
      assume "ancestorOrSelf nds (nid a) (nid r)"
      then obtain j where "climb nds j (nid r) = Some (nid a)"
        unfolding ancestorOrSelf_def by blast
      from climb_root[OF dist rin rp this] have "nid a = nid r" .
      from same_id[OF dist a(1) rin this] a(2) rp show False by simp
    qed
    have "filter (\<lambda>n. parentId n = None) ?F = filter ?P (filter (\<lambda>n. parentId n = None) nds)"
      by (simp add: conj_commute)
    with r Pr show ?thesis by simp
  qed
  have pe: "\<forall>n \<in> set ?F. case parentId n of None \<Rightarrow> True | Some q \<Rightarrow> q \<in> set (map nid ?F)"
  proof
    fix n assume "n \<in> set ?F"
    then have nin: "n \<in> set nds" and Pn: "?P n" by simp_all
    show "case parentId n of None \<Rightarrow> True | Some q \<Rightarrow> q \<in> set (map nid ?F)"
    proof (cases "parentId n")
      case None
      then show ?thesis by simp
    next
      case (Some q)
      from treeInv_parents[OF t nin Some] obtain m where m: "m \<in> set nds" "nid m = q" by auto
      have "?P m"
      proof
        assume "ancestorOrSelf nds (nid a) (nid m)"
        then obtain j where "climb nds j q = Some (nid a)"
          unfolding ancestorOrSelf_def using m(2) by blast
        from climb_parent[OF dist nin Some this] Pn show False
          unfolding ancestorOrSelf_def by blast
      qed
      with m(1) have "m \<in> set ?F" by simp
      then have "nid m \<in> nid ` set ?F" by (rule imageI)
      with m(2) Some show ?thesis by simp
    qed
  qed
  have dF: "distinct (map nid ?F)" by (rule distinct_map_filter[OF dist])
  have aF: "acyclic ?F" by (rule acyclic_filter[OF dist ac])
  have "treeInv ?F" by (rule treeInvI[OF one pe dF aF])
  moreover have "[] \<notin> set (map nid ?F)" using ne by auto
  ultimately have w: "wellFormed ?F" by (simp add: wellFormed_def)
  have i: "idsBelow k ?F" using ib by (simp add: idsBelow_def)
  have r: "relinkOk ?F" using ro unfolding relinkOk_def by auto
  from w i r show ?thesis by (simp add: nodesInv_def)
qed

subsection \<open>Relinking keeps the invariants\<close>

text \<open>The update that \<^verbatim>\<open>handleRelink\<close> maps over the nodes.\<close>

definition reparent :: "string \<Rightarrow> string \<Rightarrow> node \<Rightarrow> node" where
  "reparent a b = (\<lambda>n. if nid n = a then n\<lparr>parentId := Some b\<rparr> else n)"

lemma reparent_fields [simp]:
  "nid (reparent a b n) = nid n"
  "data_selectedNodeForRelink (reparent a b n) = data_selectedNodeForRelink n"
  by (simp_all add: reparent_def)

lemma nodeById_map:
  assumes "\<And>n. nid (g n) = nid n"
  shows "nodeById (map g nds) i = map_option g (nodeById nds i)"
  unfolding nodeById_def by (induction nds) (simp_all add: assms)

lemma nodeById_reparent:
  "nodeById (map (reparent a b) nds) i = map_option (reparent a b) (nodeById nds i)"
  by (rule nodeById_map) simp

lemma relink_outside:
  "\<not> ancestorOrSelf nds a i \<Longrightarrow>
   chainLength (map (reparent a b) nds) f i = chainLength nds f i"
proof (induction f arbitrary: i)
  case 0
  show ?case by simp
next
  case (Suc f)
  have "climb nds 0 i = Some i" by simp
  with Suc.prems have ia: "i \<noteq> a" unfolding ancestorOrSelf_def by blast
  show ?case
  proof (cases "nodeById nds i")
    case None
    then show ?thesis by (simp add: nodeById_reparent)
  next
    case (Some n)
    then have "nid n = i" by (auto dest: nodeById_SomeD)
    with ia have gn: "reparent a b n = n" by (simp add: reparent_def)
    show ?thesis
    proof (cases "parentId n")
      case None
      with Some gn show ?thesis by (simp add: nodeById_reparent)
    next
      case p: (Some p)
      have "\<not> ancestorOrSelf nds a p"
      proof
        assume "ancestorOrSelf nds a p"
        then obtain j where "climb nds j p = Some a" unfolding ancestorOrSelf_def by blast
        with Some p have "climb nds (Suc j) i = Some a" by simp
        with Suc.prems show False unfolding ancestorOrSelf_def by blast
      qed
      from Suc.IH[OF this] Some p gn show ?thesis by (simp add: nodeById_reparent)
    qed
  qed
qed

lemma relink_inside:
  assumes top: "chain (map (reparent a b) nds) a d0"
  shows "climb nds k i = Some a \<Longrightarrow> \<exists>d. chain (map (reparent a b) nds) i d"
proof (induction k arbitrary: i)
  case 0
  then have "i = a" by simp
  with top show ?case by blast
next
  case (Suc k)
  show ?case
  proof (cases "i = a")
    case True
    with top show ?thesis by blast
  next
    case False
    from Suc.prems obtain n p where
      n: "nodeById nds i = Some n" "parentId n = Some p" "climb nds k p = Some a"
      by (auto split: option.splits)
    from n(1) False have "reparent a b n = n" by (auto simp: reparent_def dest: nodeById_SomeD)
    with n(1) have x: "nodeById (map (reparent a b) nds) i = Some n"
      by (simp add: nodeById_reparent)
    from Suc.IH[OF n(3)] obtain d where "chain (map (reparent a b) nds) p d" by blast
    from chain_step[OF x n(2) this] show ?thesis by blast
  qed
qed

lemma nodesInv_relink:
  assumes inv: "nodesInv k nds" and b: "b \<in> nid ` set nds"
    and nd: "\<not> ancestorOrSelf nds a b"
    and nr: "\<forall>m \<in> set nds. nid m = a \<longrightarrow> parentId m \<noteq> None"
  shows "nodesInv k (map (reparent a b) nds)"
proof -
  let ?g = "reparent a b"
  let ?X = "map ?g nds"
  from inv have wf: "wellFormed nds" and ib: "idsBelow k nds" and ro: "relinkOk nds"
    by (simp_all add: nodesInv_def)
  from wf have t: "treeInv nds" and ne: "[] \<notin> nid ` set nds" by (simp_all add: wellFormed_def)
  have dist: "distinct (map nid nds)" by (rule treeInv_distinct[OF t])
  have ac: "acyclic nds" by (rule treeInv_acyclic[OF t])
  have ids: "map nid ?X = map nid nds" by simp
  have root: "(parentId (?g n) = None) = (parentId n = None)" if "n \<in> set nds" for n
    using nr that by (auto simp: reparent_def)
  have one: "length (filter (\<lambda>n. parentId n = None) ?X) = 1"
  proof -
    have "filter (\<lambda>n. parentId (?g n) = None) nds = filter (\<lambda>n. parentId n = None) nds"
      by (rule filter_cong) (simp_all add: root)
    then have "filter (\<lambda>n. parentId n = None) ?X = map ?g (filter (\<lambda>n. parentId n = None) nds)"
      by (simp add: filter_map o_def)
    with t show ?thesis by (simp add: treeInv_def)
  qed
  have pe: "\<forall>x \<in> set ?X. case parentId x of None \<Rightarrow> True | Some q \<Rightarrow> q \<in> set (map nid ?X)"
  proof
    fix x assume "x \<in> set ?X"
    then obtain n where n: "n \<in> set nds" "x = ?g n" by auto
    show "case parentId x of None \<Rightarrow> True | Some q \<Rightarrow> q \<in> set (map nid ?X)"
    proof (cases "nid n = a")
      case True
      with n have "parentId x = Some b" by (simp add: reparent_def)
      with b show ?thesis by (simp only: ids option.case set_map)
    next
      case False
      with n have xn: "x = n" by (simp add: reparent_def)
      show ?thesis
      proof (cases "parentId n")
        case None
        with xn show ?thesis by simp
      next
        case (Some q)
        from treeInv_parents[OF t n(1) Some] Some xn show ?thesis
          by (simp only: ids option.case set_map)
      qed
    qed
  qed
  have dX: "distinct (map nid ?X)" using dist by (simp only: ids)
  obtain db where db: "chain nds b db" using chain_exists_of_acyclic[OF ac] by blast
  then have cb: "chain ?X b db" unfolding chain_def by (simp add: relink_outside[OF nd])
  have top: "\<exists>d0. chain ?X a d0"
  proof (cases "nodeById nds a")
    case None
    then have "nodeById ?X a = None" by (simp add: nodeById_reparent)
    then have "a \<notin> nid ` set ?X" unfolding nodeById_None_iff .
    from chain_missing[OF this] show ?thesis by blast
  next
    case (Some A)
    then have "nid A = a" by (auto dest: nodeById_SomeD)
    then have p: "parentId (?g A) = Some b" by (simp add: reparent_def)
    from Some have "nodeById ?X a = Some (?g A)" by (simp add: nodeById_reparent)
    from chain_step[OF this p cb] show ?thesis by blast
  qed
  have aX: "acyclic ?X"
  proof (rule acyclicI)
    fix x assume "x \<in> set ?X"
    then obtain n where n: "n \<in> set nds" "x = ?g n" by auto
    then have nx: "nid x = nid n" by simp
    show "\<exists>d. chain ?X (nid x) d"
    proof (cases "ancestorOrSelf nds a (nid n)")
      case False
      from acyclic_chain[OF ac n(1)] obtain d where "chain nds (nid n) d" by blast
      then have "chain ?X (nid n) d" unfolding chain_def by (simp add: relink_outside[OF False])
      with nx show ?thesis by auto
    next
      case True
      then obtain j where j: "climb nds j (nid n) = Some a" unfolding ancestorOrSelf_def by blast
      from top obtain d0 where "chain ?X a d0" by blast
      from relink_inside[OF this j] nx show ?thesis by simp
    qed
  qed
  have "treeInv ?X" by (rule treeInvI[OF one pe dX aX])
  moreover have "[] \<notin> set (map nid ?X)" unfolding ids using ne by simp
  ultimately have w: "wellFormed ?X" by (simp add: wellFormed_def)
  have i: "idsBelow k ?X" using ib by (simp add: idsBelow_def)
  have r: "relinkOk ?X"
    unfolding relinkOk_def
  proof (intro ballI impI)
    fix x y assume "x \<in> set ?X" "y \<in> set ?X"
      and s: "data_selectedNodeForRelink x = Some (nid y)"
    then obtain n m where n: "n \<in> set nds" "x = ?g n" and m: "m \<in> set nds" "y = ?g m"
      by auto
    from s n m have "data_selectedNodeForRelink n = Some (nid m)" by simp
    with ro n(1) m(1) have "parentId m \<noteq> None" unfolding relinkOk_def by blast
    with root[OF m(1)] m(2) show "parentId y \<noteq> None" by simp
  qed
  from w i r show ?thesis by (simp add: nodesInv_def)
qed

subsection \<open>The relink state in the node data\<close>

lemma nodesInv_data:
  assumes "nodesInv k nds"
    and "\<forall>m \<in> set nds. sel = Some (nid m) \<longrightarrow> parentId m \<noteq> None"
  shows "nodesInv k (map (\<lambda>n. n\<lparr>data_isRelinkMode := rm, data_selectedNodeForRelink := sel\<rparr>)
                         nds)"
proof -
  let ?X = "map (\<lambda>n. n\<lparr>data_isRelinkMode := rm, data_selectedNodeForRelink := sel\<rparr>) nds"
  have s: "sameStructure ?X nds" by (simp add: sameStructure_def)
  from assms(1) have w: "wellFormed ?X" by (simp add: wellFormed_cong[OF s] nodesInv_def)
  from assms(1) have i: "idsBelow k ?X" by (simp add: nodesInv_def idsBelow_def)
  from assms(2) have r: "relinkOk ?X" by (simp add: relinkOk_def)
  from w i r show ?thesis by (simp add: nodesInv_def)
qed

lemma relinkEffect_inv:
  assumes "nodesInv (nextId new) (nodes new)"
    and "\<forall>m \<in> set (nodes new). selectedNodeForRelink new = Some (nid m) \<longrightarrow> parentId m \<noteq> None"
  shows "editorInv (relinkEffect old new)"
proof -
  have d: "nodesInv (nextId new)
             (map (\<lambda>n. n\<lparr>data_isRelinkMode := rm,
                          data_selectedNodeForRelink := selectedNodeForRelink new\<rparr>)
                  (nodes new))" for rm
    by (rule nodesInv_data[OF assms])
  show ?thesis
  proof (cases "(isRelinkMode new \<noteq> isRelinkMode old
                 \<or> selectedNodeForRelink new \<noteq> selectedNodeForRelink old)
                \<and> length (nodes new) > 0")
    case True
    then have "relinkEffect old new
               = new\<lparr>nodes :=
                       map (\<lambda>n. n\<lparr>data_isRelinkMode := isRelinkMode new,
                                    data_selectedNodeForRelink := selectedNodeForRelink new\<rparr>)
                           (nodes new)\<rparr>"
      unfolding relinkEffect_def by (simp only: if_True simp_thms)
    with d[of "isRelinkMode new"] show ?thesis by (simp add: editorInv_def)
  next
    case False
    then have "relinkEffect old new = new" unfolding relinkEffect_def by auto
    with assms(1) show ?thesis by (simp add: editorInv_def)
  qed
qed

subsection \<open>The cycle check returns\<close>

lemma isNodeDescendant_returns:
  assumes wf: "wellFormed nds"
  shows "chain nds b d \<Longrightarrow> d < f \<Longrightarrow> \<exists>r. isNodeDescendant f (nodeParents nds) b a = Some r"
proof (induction f arbitrary: b d)
  case 0
  then show ?case by simp
next
  case (Suc f)
  from wf have dist: "distinct (map nid nds)" by (simp add: wellFormed_def treeInv_distinct)
  note np = nodeParents_lookup[OF dist]
  show ?case
  proof (cases "b = a")
    case True
    then have "isNodeDescendant (Suc f) (nodeParents nds) b a = Some True" by simp
    then show ?thesis by blast
  next
    case False
    show ?thesis
    proof (cases "nodeById nds b")
      case None
      with False have "isNodeDescendant (Suc f) (nodeParents nds) b a = Some False"
        by (simp add: np)
      then show ?thesis by blast
    next
      case (Some n)
      then have nin: "n \<in> set nds" by (auto dest: nodeById_SomeD)
      show ?thesis
      proof (cases "parentId n")
        case None
        with Some False have "isNodeDescendant (Suc f) (nodeParents nds) b a = Some False"
          by (simp add: np)
        then show ?thesis by blast
      next
        case p: (Some p)
        from wellFormed_parent_nonempty[OF wf nin p] have pn: "p \<noteq> []" .
        from chain_stepD[OF Some p Suc.prems(1)] obtain d' where
          d': "d = Suc d'" "chain nds p d'" by blast
        with Suc.prems(2) have "d' < f" by simp
        from Suc.IH[OF d'(2) this] obtain r where
          "isNodeDescendant f (nodeParents nds) p a = Some r" by blast
        with Some p pn False have "isNodeDescendant (Suc f) (nodeParents nds) b a = Some r"
          by (simp add: np)
        then show ?thesis by blast
      qed
    qed
  qed
qed

lemma canBeRelinkTarget_returns:
  assumes wf: "wellFormed nds" and n: "n \<in> set nds"
  shows "\<exists>can. canBeRelinkTarget nds n = Some can
           \<and> (can \<longrightarrow> (\<exists>a. data_selectedNodeForRelink n = Some a
                            \<and> \<not> ancestorOrSelf nds a (nid n)))"
proof (cases "isValidRelinkTarget n")
  case False
  then have "canBeRelinkTarget nds n = Some False" by (simp add: canBeRelinkTarget_def)
  then show ?thesis by blast
next
  case True
  then obtain a where a: "data_selectedNodeForRelink n = Some a" "data_isRelinkMode n" "a \<noteq> []"
    by (cases "data_selectedNodeForRelink n") (auto simp: isValidRelinkTarget_def)
  from wf have t: "treeInv nds" by (simp add: wellFormed_def)
  have ac: "acyclic nds" by (rule treeInv_acyclic[OF t])
  from acyclic_chain[OF ac n] obtain d where d: "chain nds (nid n) d" by blast
  from chain_bound[OF d] have "d < Suc (length nds)" by simp
  from isNodeDescendant_returns[OF wf d this] obtain r where
    r: "isNodeDescendant (Suc (length nds)) (nodeParents nds) (nid n) a = Some r" by blast
  have "\<not> ancestorOrSelf nds a (nid n)" if "\<not> r"
  proof
    assume "ancestorOrSelf nds a (nid n)"
    then obtain j where j: "climb nds j (nid n) = Some a" unfolding ancestorOrSelf_def by blast
    from ancestorOrSelf_bound[OF ac j] have "j < Suc (length nds)" by simp
    from isNodeDescendant_ancestor[OF wf j this] r that show False by simp
  qed
  with True a r show ?thesis
    by (auto simp add: canBeRelinkTarget_def isDescendant_def simp del: isNodeDescendant.simps)
qed

subsection \<open>Every command keeps the invariants\<close>

lemma rendered_SomeD: "rendered st i = Some n \<Longrightarrow> n \<in> set (nodes st) \<and> nid n = i"
  by (simp add: rendered_def nodeById_SomeD)

lemma plusClick_inv:
  assumes inv: "editorInv st" and n: "n \<in> set (nodes st)"
  shows "\<exists>st'. plusClick n st = Some st' \<and> editorInv st'"
proof -
  let ?X = "nodes st @ [newNode False None (nextId st) (nid n)]"
  from inv have "nodesInv (nextId st) (nodes st)" by (simp add: editorInv_def)
  moreover from n have "nid n \<in> nid ` set (nodes st)" by simp
  ultimately have X: "nodesInv (Suc (nextId st)) ?X" by (rule nodesInv_add)
  then have "treeInv ?X" by (simp add: nodesInv_def wellFormed_def)
  from relayout[OF this] obtain laid es where
    l: "layoutTree ?X = Some laid" "computeEdges laid = Some es"
       "map stripLayout laid = map stripLayout ?X"
    by blast
  from nodesInv_cong[OF l(3)] X have "nodesInv (Suc (nextId st)) laid" by simp
  with l(1,2) show ?thesis by (simp add: plusClick_def handleAddChild_def editorInv_def)
qed

lemma trashClick_inv:
  assumes inv: "editorInv st" and n: "n \<in> set (nodes st)"
  shows "\<exists>st'. trashClick n st = Some st' \<and> editorInv st'"
proof (cases "parentId n = None")
  case True
  with inv show ?thesis by (simp add: trashClick_def)
next
  case False
  let ?F = "filter (\<lambda>m. \<not> ancestorOrSelf (nodes st) (nid n) (nid m)) (nodes st)"
  from inv have ni: "nodesInv (nextId st) (nodes st)" by (simp add: editorInv_def)
  then have t: "treeInv (nodes st)" by (simp add: nodesInv_def wellFormed_def)
  from handleDelete_nodes[OF treeInv_distinct[OF t] treeInv_acyclic[OF t], of "nid n"]
  obtain st' where
    st': "handleDelete (nid n) st = Some st'" "layoutTree ?F = Some (nodes st')"
         "nextId st' = nextId st"
    by blast
  from nodesInv_delete[OF ni n False] have "nodesInv (nextId st) ?F" .
  with nodesInv_cong[OF layoutTree_stripLayout[OF st'(2)]] st'(3) have "editorInv st'"
    by (simp add: editorInv_def)
  with st'(1) False show ?thesis by (simp add: trashClick_def)
qed

lemma handleRelink_inv:
  assumes inv: "editorInv st" and n: "n \<in> set (nodes st)"
    and a: "data_selectedNodeForRelink n = Some a" "\<not> ancestorOrSelf (nodes st) a (nid n)"
  shows "\<exists>st'. handleRelink a (nid n) st = Some st' \<and> editorInv st'"
proof -
  let ?X = "map (reparent a (nid n)) (nodes st)"
  from inv have ni: "nodesInv (nextId st) (nodes st)" by (simp add: editorInv_def)
  then have ro: "relinkOk (nodes st)" by (simp add: nodesInv_def)
  have nr: "\<forall>m \<in> set (nodes st). nid m = a \<longrightarrow> parentId m \<noteq> None"
  proof (intro ballI impI)
    fix m assume m: "m \<in> set (nodes st)" "nid m = a"
    with a(1) have "data_selectedNodeForRelink n = Some (nid m)" by simp
    with ro n m(1) show "parentId m \<noteq> None" unfolding relinkOk_def by blast
  qed
  from n have b: "nid n \<in> nid ` set (nodes st)" by simp
  from nodesInv_relink[OF ni b a(2) nr] have X: "nodesInv (nextId st) ?X" .
  then have "treeInv ?X" by (simp add: nodesInv_def wellFormed_def)
  from relayout[OF this] obtain laid es where
    l: "layoutTree ?X = Some laid" "computeEdges laid = Some es"
       "map stripLayout laid = map stripLayout ?X"
    by blast
  from nodesInv_cong[OF l(3)] X have L: "nodesInv (nextId st) laid" by simp
  let ?new = "st\<lparr>nodes := laid, edges := es, isRelinkMode := False,
                 selectedNodeForRelink := None\<rparr>"
  have "editorInv (relinkEffect st ?new)" by (rule relinkEffect_inv) (simp_all add: L)
  with l(1,2) show ?thesis by (simp add: handleRelink_def reparent_def)
qed

lemma handleSelectForRelink_inv:
  assumes inv: "editorInv st" and n: "n \<in> set (nodes st)" "parentId n \<noteq> None"
  shows "editorInv (handleSelectForRelink (nid n) st)"
  unfolding handleSelectForRelink_def
proof (rule relinkEffect_inv)
  let ?new = "st\<lparr>selectedNodeForRelink := Some (nid n)\<rparr>"
  from inv show "nodesInv (nextId ?new) (nodes ?new)" by (simp add: editorInv_def)
  from inv have "distinct (map nid (nodes st))"
    by (simp add: editorInv_def nodesInv_def wellFormed_def treeInv_distinct)
  note dist = this
  show "\<forall>m \<in> set (nodes ?new). selectedNodeForRelink ?new = Some (nid m) \<longrightarrow> parentId m \<noteq> None"
  proof (intro ballI impI)
    fix m assume "m \<in> set (nodes ?new)" "selectedNodeForRelink ?new = Some (nid m)"
    then have m: "m \<in> set (nodes st)" "nid m = nid n" by simp_all
    from same_id[OF dist m(1) n(1) m(2)] n(2) show "parentId m \<noteq> None" by simp
  qed
qed

lemma handleNodeClick_inv:
  assumes inv: "editorInv st" and n: "n \<in> set (nodes st)"
  shows "\<exists>st'. handleNodeClick n st = Some st' \<and> editorInv st'"
proof -
  from inv have wf: "wellFormed (nodes st)" by (simp add: editorInv_def nodesInv_def)
  from canBeRelinkTarget_returns[OF wf n] obtain can where
    can: "canBeRelinkTarget (nodes st) n = Some can"
         "can \<longrightarrow> (\<exists>a. data_selectedNodeForRelink n = Some a
                       \<and> \<not> ancestorOrSelf (nodes st) a (nid n))"
    by blast
  show ?thesis
  proof (cases "data_isRelinkMode n")
    case False
    with can(1) inv show ?thesis by (simp add: handleNodeClick_def)
  next
    case rm: True
    show ?thesis
    proof (cases "truthy (data_selectedNodeForRelink n)")
      case True
      show ?thesis
      proof (cases can)
        case c: True
        with can(2) obtain a where
          a: "data_selectedNodeForRelink n = Some a" "\<not> ancestorOrSelf (nodes st) a (nid n)"
          by blast
        from a(1) can(1) rm True c have "handleNodeClick n st = handleRelink a (nid n) st"
          by (simp add: handleNodeClick_def)
        with handleRelink_inv[OF inv n a] show ?thesis by (simp only:)
      next
        case False
        with can(1) inv rm True show ?thesis by (simp add: handleNodeClick_def)
      qed
    next
      case ntr: False
      show ?thesis
      proof (cases "parentId n = None")
        case True
        with can(1) inv rm ntr show ?thesis by (simp add: handleNodeClick_def)
      next
        case False
        from can(1) rm ntr False
        have "handleNodeClick n st = Some (handleSelectForRelink (nid n) st)"
          by (simp add: handleNodeClick_def)
        with handleSelectForRelink_inv[OF inv n False] show ?thesis by blast
      qed
    qed
  qed
qed

lemma perform_inv:
  assumes inv: "editorInv st"
  shows "\<exists>st'. perform c st = Some st' \<and> editorInv st'"
proof (cases c)
  case (PlusClick i)
  show ?thesis
  proof (cases "rendered st i")
    case None
    with PlusClick inv show ?thesis by simp
  next
    case (Some n)
    from rendered_SomeD[OF Some] have "n \<in> set (nodes st)" by simp
    from PlusClick Some have "perform c st = plusClick n st" by simp
    with plusClick_inv[OF inv \<open>n \<in> set (nodes st)\<close>] show ?thesis by (simp only:)
  qed
next
  case (TrashClick i)
  show ?thesis
  proof (cases "rendered st i")
    case None
    with TrashClick inv show ?thesis by simp
  next
    case (Some n)
    from rendered_SomeD[OF Some] have "n \<in> set (nodes st)" by simp
    from TrashClick Some have "perform c st = trashClick n st" by simp
    with trashClick_inv[OF inv \<open>n \<in> set (nodes st)\<close>] show ?thesis by (simp only:)
  qed
next
  case (NodeClick i)
  show ?thesis
  proof (cases "rendered st i")
    case None
    with NodeClick inv show ?thesis by simp
  next
    case (Some n)
    from rendered_SomeD[OF Some] have "n \<in> set (nodes st)" by simp
    from NodeClick Some have "perform c st = handleNodeClick n st" by simp
    with handleNodeClick_inv[OF inv \<open>n \<in> set (nodes st)\<close>] show ?thesis by (simp only:)
  qed
next
  case ToggleRelinkMode
  have "editorInv (toggleRelinkMode st)"
    unfolding toggleRelinkMode_def
    by (rule relinkEffect_inv) (use inv in \<open>simp_all add: editorInv_def\<close>)
  with ToggleRelinkMode show ?thesis by simp
next
  case CancelRelink
  have "editorInv (cancelRelink st)"
    unfolding cancelRelink_def
    by (rule relinkEffect_inv) (use inv in \<open>simp_all add: editorInv_def\<close>)
  with CancelRelink inv show ?thesis by simp
qed

lemma run_inv:
  "editorInv st \<Longrightarrow> \<exists>st'. run cs st = Some st' \<and> editorInv st'"
proof (induction cs arbitrary: st)
  case Nil
  then show ?case by simp
next
  case (Cons c cs)
  from perform_inv[OF Cons.prems, of c] obtain st1 where
    s: "perform c st = Some st1" "editorInv st1" by blast
  from Cons.IH[OF s(2)] s(1) show ?case by simp
qed

lemma mount_inv: "\<exists>st. mount = Some st \<and> editorInv st"
proof -
  have e: "editorInv (the mount)" by code_simp
  have "mount \<noteq> None" by code_simp
  then obtain st where st: "mount = Some st" by (cases mount) auto
  from e have "editorInv st" unfolding st by simp
  with st show ?thesis by blast
qed

lemma session_inv: "\<exists>st. session cs = Some st \<and> editorInv st"
proof -
  from mount_inv obtain st0 where m: "mount = Some st0" "editorInv st0" by blast
  from run_inv[OF m(2), of cs] obtain st where "run cs st0 = Some st" "editorInv st" by blast
  moreover have "session cs = run cs st0" unfolding session_def m(1) by simp
  ultimately show ?thesis by auto
qed

text \<open>
  In every state of a session no id and no \<^verbatim>\<open>parentId\<close> names a property of
  \<^verbatim>\<open>Object.prototype\<close>: the lookups of the layout only meet own properties.
\<close>

lemma session_ids_plain:
  "\<exists>st. session cs = Some st
        \<and> set (map nid (nodes st)) \<inter> set objectPrototypeKeys = {}
        \<and> (\<forall>n \<in> set (nodes st). \<forall>p. parentId n = Some p \<longrightarrow> p \<notin> set objectPrototypeKeys)"
proof -
  from session_inv[of cs] obtain st where st: "session cs = Some st" "editorInv st" by blast
  then have ib: "idsBelow (nextId st) (nodes st)" and t: "treeInv (nodes st)"
    by (simp_all add: editorInv_def nodesInv_def wellFormed_def)
  note pl = idsBelow_plain[OF ib]
  have "p \<notin> set objectPrototypeKeys" if "n \<in> set (nodes st)" "parentId n = Some p" for n p
    using treeInv_parents[OF t that] pl by auto
  with st(1) pl show ?thesis by blast
qed

subsection \<open>Invariant preservation\<close>

definition relinkSession :: "command list" where
  "relinkSession =
     [PlusClick ''1'', PlusClick ''1'', PlusClick ''2'', ToggleRelinkMode,
      NodeClick ''4'', NodeClick ''3'', TrashClick ''2'']"

text \<open>
  Claim C1: for every sequence of commands issued through the interface (the plus and
  trash icons, clicks on nodes, the relink-mode and cancel buttons), starting from the
  mounted single-root tree, every command returns and the node set after each command
  (after every prefix of the sequence) satisfies the four tree invariants.
\<close>

theorem session_keeps_tree:
  "\<exists>st. session (take k cs) = Some st \<and> treeInv (nodes st)"
proof -
  from session_inv[of "take k cs"] obtain st where
    "session (take k cs) = Some st" "editorInv st" by blast
  then show ?thesis by (auto simp: editorInv_def nodesInv_def wellFormed_def)
qed

theorem session_keeps_tree_witness:
  "\<exists>st. session (take 6 relinkSession) = Some st \<and> treeInv (nodes st)
        \<and> map nid (nodes st) = [''1'', ''2'', ''3'', ''4'']
        \<and> map parentId (nodes st) = [None, Some ''1'', Some ''1'', Some ''3'']"
proof -
  from session_keeps_tree[of 6 relinkSession] obtain st where
    st: "session (take 6 relinkSession) = Some st" "treeInv (nodes st)" by blast
  have "map_option (map nid \<circ> nodes) (session (take 6 relinkSession))
        = Some [''1'', ''2'', ''3'', ''4'']" by code_simp
  moreover have "map_option (map parentId \<circ> nodes) (session (take 6 relinkSession))
        = Some [None, Some ''1'', Some ''1'', Some ''3'']" by code_simp
  ultimately show ?thesis using st by auto
qed
end
